theory Spec2Isabelle
  imports Main
begin

section \<open>Kernel state of threads/thread.c\<close>

text \<open>
  Pointers are addresses, \<open>0\<close> is \<open>NULL\<close>. A \<open>struct thread *\<close> is the address of the
  page the thread lives in; the memory behind it is the total store \<open>threads\<close>, so a
  pointer is told from garbage the way the C does it: by the \<open>magic\<close> word.
  \<open>int\<close>, \<open>int64_t\<close> and \<open>tid_t\<close> values are HOL integers: thread.c only copies and
  compares priorities and ticks, and the one increment (\<open>next_tid++\<close>) is far from
  the type's bound.
\<close>

type_synonym thread_ptr = nat
type_synonym lock_ptr = nat

datatype thread_status = THREAD_RUNNING | THREAD_READY | THREAD_BLOCKED | THREAD_DYING

datatype intr_level = INTR_OFF | INTR_ON

datatype fault = ASSERT_failed | NULL_dereference

text \<open>
  \<open>struct thread\<close> (threads/thread.h is not among the sources): the members
  thread.c reads or writes. The intrusive list elements \<open>elem\<close>, \<open>donation_elem\<close> and
  \<open>child_elem\<close> are the thread's membership in the lists below; the three semaphores
  are their values; of the interrupt frame \<open>tf\<close> the members written with a value
  known here.
\<close>

record thread =
  tid :: int
  status :: thread_status
  name :: string
  priority :: int
  init_priority :: int
  wait_on_lock :: lock_ptr
  donations :: "thread_ptr list"
  wakeup_tick :: int
  children :: "thread_ptr list"
  fork_sema :: nat
  wait_sema :: nat
  free_sema :: nat
  fdt :: nat
  next_fd :: int
  max_fd :: int
  running_file :: nat
  tf_rsp :: nat
  tf_rip :: nat
  tf_rdi :: nat
  tf_rsi :: nat
  magic :: nat

text \<open>\<open>struct lock\<close> (threads/synch.h): thread.c reads its \<open>holder\<close> only.\<close>

record lock =
  holder :: thread_ptr

text \<open>
  The file's static variables, the memory they point into, and the two facts about
  the CPU the code asks for: which thread's stack it runs on (\<open>running_thread ()\<close>)
  and the interrupt state (\<open>intr_get_level ()\<close>, \<open>intr_context ()\<close>).
\<close>

record kstate =
  threads :: "thread_ptr \<Rightarrow> thread"
  locks :: "lock_ptr \<Rightarrow> lock"
  fd_tables :: "nat \<Rightarrow> nat \<Rightarrow> nat"
  ready_list :: "thread_ptr list"
  sleep_list :: "thread_ptr list"
  next_tick_to_awake :: int
  idle_thread :: thread_ptr
  initial_thread :: thread_ptr
  destruction_req :: "thread_ptr list"
  thread_ticks :: nat
  next_tid :: int
  running :: thread_ptr
  level :: intr_level
  in_external_intr :: bool

definition THREAD_MAGIC :: nat where
  "THREAD_MAGIC = 0xcd6abf4b"

definition DONATE_MAX_DEPTH :: nat where
  "DONATE_MAX_DEPTH = 8"

definition INT64_MAX :: int where
  "INT64_MAX = 2 ^ 63 - 1"

text \<open>
  Constants of threads/thread.h and threads/vaddr.h, which are not among the
  sources; the values are the ones the specification lists (\<open>PRI_MIN = 0\<close>,
  \<open>PRI_MAX = 63\<close>, \<open>PRI_DEFAULT = 31\<close>) and the kernel's page size.
\<close>

definition PRI_MIN :: int where
  "PRI_MIN = 0"

definition PRI_MAX :: int where
  "PRI_MAX = 63"

definition PRI_DEFAULT :: int where
  "PRI_DEFAULT = 31"

definition TID_ERROR :: int where
  "TID_ERROR = - 1"

definition PGSIZE :: nat where
  "PGSIZE = 4096"

text \<open>The address of \<open>kernel_thread\<close>, stored in \<open>tf.rip\<close>; any non-null value.\<close>

definition kernel_thread :: nat where
  "kernel_thread = 1"

subsection \<open>Field updates through a pointer\<close>

definition upd_thread :: "thread_ptr \<Rightarrow> (thread \<Rightarrow> thread) \<Rightarrow> kstate \<Rightarrow> kstate" where
  "upd_thread t f s = s\<lparr>threads := (threads s)(t := f (threads s t))\<rparr>"

definition is_thread :: "kstate \<Rightarrow> thread_ptr \<Rightarrow> bool" where
  "is_thread s t = (t \<noteq> 0 \<and> magic (threads s t) = THREAD_MAGIC)"

subsection \<open>lib/kernel/list.c\<close>

text \<open>
  Modelled from the spec: \<open>list_insert_ordered\<close> and \<open>list_sort\<close> of
  lib/kernel/list.c, which is not among the sources. The specification has insertion
  "in priority order" with ties in FIFO order: the element goes before the first
  element \<open>e\<close> with \<open>less elem e\<close>, so behind every element it is not less than.
  \<open>list_sort\<close> is a stable sort by \<open>less\<close>; its result does not depend on the algorithm
  and is computed here by insertion from the left.
\<close>

fun list_insert_ordered :: "('a \<Rightarrow> 'a \<Rightarrow> bool) \<Rightarrow> 'a \<Rightarrow> 'a list \<Rightarrow> 'a list" where
  "list_insert_ordered lt x [] = [x]"
| "list_insert_ordered lt x (e # es) =
     (if lt x e then x # e # es else e # list_insert_ordered lt x es)"

definition list_sort :: "('a \<Rightarrow> 'a \<Rightarrow> bool) \<Rightarrow> 'a list \<Rightarrow> 'a list" where
  "list_sort lt xs = foldl (\<lambda>acc x. list_insert_ordered lt x acc) [] xs"

subsection \<open>Comparators\<close>

definition thread_compare_priority :: "kstate \<Rightarrow> thread_ptr \<Rightarrow> thread_ptr \<Rightarrow> bool" where
  "thread_compare_priority s a b = (priority (threads s a) > priority (threads s b))"

definition thread_compare_donate_priority :: "kstate \<Rightarrow> thread_ptr \<Rightarrow> thread_ptr \<Rightarrow> bool" where
  "thread_compare_donate_priority s a b = (priority (threads s a) > priority (threads s b))"

subsection \<open>thread_current, thread_unblock, scheduling\<close>

definition thread_current :: "kstate \<Rightarrow> fault + thread_ptr" where
  "thread_current s =
     (let t = running s in
      if \<not> is_thread s t then Inl ASSERT_failed
      else if status (threads s t) \<noteq> THREAD_RUNNING then Inl ASSERT_failed
      else Inr t)"

text \<open>
  \<open>intr_disable ()\<close> ... \<open>intr_set_level (old_level)\<close> leaves the level as it found
  it, and nothing in between reads it.
\<close>

definition thread_unblock :: "thread_ptr \<Rightarrow> kstate \<Rightarrow> fault + kstate" where
  "thread_unblock t s =
     (if \<not> is_thread s t then Inl ASSERT_failed
      else if status (threads s t) \<noteq> THREAD_BLOCKED then Inl ASSERT_failed
      else
        let s1 = s\<lparr>ready_list := list_insert_ordered (thread_compare_priority s) t (ready_list s)\<rparr>
        in Inr (upd_thread t (\<lambda>th. th\<lparr>status := THREAD_READY\<rparr>) s1))"

definition next_thread_to_run :: "kstate \<Rightarrow> thread_ptr \<times> kstate" where
  "next_thread_to_run s =
     (case ready_list s of
        [] \<Rightarrow> (idle_thread s, s)
      | t # rest \<Rightarrow> (t, s\<lparr>ready_list := rest\<rparr>))"

text \<open>
  \<open>thread_launch\<close> is the context switch: afterwards the CPU runs on the stack of
  \<open>next\<close>. When \<open>schedule\<close> has switched to another thread, the state it returns is
  the state at that moment, and what the caller does after its call happens when it
  is scheduled again. When \<open>schedule\<close> picks the caller itself, the caller goes on at
  once; \<open>thread_yield\<close> and \<open>thread_sleep\<close> then restore the interrupt level they
  found. \<open>process_activate\<close> (USERPROG) touches no variable of this file.
\<close>

definition thread_launch :: "thread_ptr \<Rightarrow> kstate \<Rightarrow> kstate" where
  "thread_launch th s = s\<lparr>running := th\<rparr>"

definition schedule :: "kstate \<Rightarrow> fault + kstate" where
  "schedule s =
     (let cur = running s;
          (next, s1) = next_thread_to_run s
      in
      if level s1 \<noteq> INTR_OFF then Inl ASSERT_failed
      else if status (threads s1 cur) = THREAD_RUNNING then Inl ASSERT_failed
      else if \<not> is_thread s1 next then Inl ASSERT_failed
      else
        let s2 = upd_thread next (\<lambda>th. th\<lparr>status := THREAD_RUNNING\<rparr>) s1;
            s3 = s2\<lparr>thread_ticks := 0\<rparr>
        in
        if cur \<noteq> next then
          let s4 = (if cur \<noteq> 0 \<and> status (threads s3 cur) = THREAD_DYING
                       \<and> cur \<noteq> initial_thread s3
                    then s3\<lparr>destruction_req := destruction_req s3 @ [cur]\<rparr>
                    else s3)
          in Inr (thread_launch next s4)
        else Inr s3)"

text \<open>
  The loop of \<open>do_schedule\<close> pops every request and hands the page back to the page
  allocator, which keeps no state here: the list ends empty.
\<close>

definition do_schedule :: "thread_status \<Rightarrow> kstate \<Rightarrow> fault + kstate" where
  "do_schedule st s =
     (if level s \<noteq> INTR_OFF then Inl ASSERT_failed
      else case thread_current s of
        Inl e \<Rightarrow> Inl e
      | Inr cur \<Rightarrow>
          let s1 = s\<lparr>destruction_req := []\<rparr>
          in (case thread_current s1 of
                Inl e \<Rightarrow> Inl e
              | Inr cur1 \<Rightarrow> schedule (upd_thread cur1 (\<lambda>th. th\<lparr>status := st\<rparr>) s1)))"

definition thread_block :: "kstate \<Rightarrow> fault + kstate" where
  "thread_block s =
     (if in_external_intr s then Inl ASSERT_failed
      else if level s \<noteq> INTR_OFF then Inl ASSERT_failed
      else case thread_current s of
        Inl e \<Rightarrow> Inl e
      | Inr cur \<Rightarrow> schedule (upd_thread cur (\<lambda>th. th\<lparr>status := THREAD_BLOCKED\<rparr>) s))"

definition thread_yield :: "kstate \<Rightarrow> fault + kstate" where
  "thread_yield s =
     (case thread_current s of
        Inl e \<Rightarrow> Inl e
      | Inr cur \<Rightarrow>
          if in_external_intr s then Inl ASSERT_failed
          else
            let old_level = level s;
                s1 = s\<lparr>level := INTR_OFF\<rparr>;
                s2 = (if cur \<noteq> idle_thread s1
                      then s1\<lparr>ready_list :=
                             list_insert_ordered (thread_compare_priority s1) cur (ready_list s1)\<rparr>
                      else s1)
            in (case do_schedule THREAD_READY s2 of
                  Inl e \<Rightarrow> Inl e
                | Inr s3 \<Rightarrow>
                    Inr (if running s3 = cur then s3\<lparr>level := old_level\<rparr> else s3)))"

definition test_max_priority :: "kstate \<Rightarrow> fault + kstate" where
  "test_max_priority s =
     (if in_external_intr s then Inr s
      else if ready_list s = [] then Inr s
      else case thread_current s of
        Inl e \<Rightarrow> Inl e
      | Inr cur \<Rightarrow>
          if priority (threads s cur) < priority (threads s (hd (ready_list s)))
          then thread_yield s
          else Inr s)"

subsection \<open>Sleeping\<close>

definition update_next_tick_to_awake :: "int \<Rightarrow> kstate \<Rightarrow> kstate" where
  "update_next_tick_to_awake ticks s =
     s\<lparr>next_tick_to_awake :=
         (if next_tick_to_awake s > ticks then ticks else next_tick_to_awake s)\<rparr>"

definition get_next_tick_to_awake :: "kstate \<Rightarrow> int" where
  "get_next_tick_to_awake s = next_tick_to_awake s"

definition thread_sleep :: "int \<Rightarrow> kstate \<Rightarrow> fault + kstate" where
  "thread_sleep ticks s =
     (let old_level = level s;
          s0 = s\<lparr>level := INTR_OFF\<rparr>
      in
      case thread_current s0 of
        Inl e \<Rightarrow> Inl e
      | Inr cur \<Rightarrow>
          if cur = idle_thread s0 then Inl ASSERT_failed
          else
            let s1 = upd_thread cur (\<lambda>th. th\<lparr>wakeup_tick := ticks\<rparr>) s0;
                s2 = update_next_tick_to_awake ticks s1;
                s3 = s2\<lparr>sleep_list := sleep_list s2 @ [cur]\<rparr>
            in (case thread_block s3 of
                  Inl e \<Rightarrow> Inl e
                | Inr s4 \<Rightarrow>
                    Inr (if running s4 = cur then s4\<lparr>level := old_level\<rparr> else s4)))"

text \<open>
  The loop of \<open>thread_awake\<close> walks the sleep list with a cursor \<open>e\<close>: \<open>kept\<close> are the
  elements before the cursor, which stay in the list, and the second list those
  from the cursor on. \<open>list_remove\<close> unlinks the element at the cursor and returns
  its successor.
\<close>

fun thread_awake_loop :: "int \<Rightarrow> thread_ptr list \<Rightarrow> thread_ptr list \<Rightarrow> kstate \<Rightarrow> fault + kstate" where
  "thread_awake_loop curr_tick kept [] s = Inr s"
| "thread_awake_loop curr_tick kept (t # rest) s =
     (if curr_tick \<ge> wakeup_tick (threads s t) then
        (case thread_unblock t (s\<lparr>sleep_list := kept @ rest\<rparr>) of
           Inl e \<Rightarrow> Inl e
         | Inr s' \<Rightarrow> thread_awake_loop curr_tick kept rest s')
      else
        thread_awake_loop curr_tick (kept @ [t]) rest
          (update_next_tick_to_awake (wakeup_tick (threads s t)) s))"

definition thread_awake :: "int \<Rightarrow> kstate \<Rightarrow> fault + kstate" where
  "thread_awake curr_tick s =
     thread_awake_loop curr_tick [] (sleep_list s) (s\<lparr>next_tick_to_awake := INT64_MAX\<rparr>)"

subsection \<open>Priority donation\<close>

text \<open>
  The loop of \<open>donate_priority\<close>, from \<open>depth\<close> on, with the focus \<open>cur\<close>.
  \<open>holder->priority\<close> on a lock nobody holds reads through \<open>NULL\<close>.
\<close>

function donate_priority_loop :: "nat \<Rightarrow> thread_ptr \<Rightarrow> kstate \<Rightarrow> fault + kstate" where
  "donate_priority_loop depth cur s =
     (if depth < DONATE_MAX_DEPTH then
        (if wait_on_lock (threads s cur) = 0 then Inr s
         else
           let h = holder (locks s (wait_on_lock (threads s cur))) in
           if h = 0 then Inl NULL_dereference
           else
             let s1 = (if priority (threads s h) < priority (threads s cur)
                       then upd_thread h (\<lambda>th. th\<lparr>priority := priority (threads s cur)\<rparr>) s
                       else s)
             in donate_priority_loop (Suc depth) h s1)
      else Inr s)"
  by pat_completeness auto
termination
  by (relation "measure (\<lambda>(depth, cur, s). DONATE_MAX_DEPTH - depth)") auto

definition donate_priority :: "kstate \<Rightarrow> fault + kstate" where
  "donate_priority s =
     (case thread_current s of
        Inl e \<Rightarrow> Inl e
      | Inr cur \<Rightarrow> donate_priority_loop 0 cur s)"

text \<open>\<open>list_front\<close> asserts that the list is not empty; here it is called on one that is not.\<close>

definition refresh_priority :: "kstate \<Rightarrow> fault + kstate" where
  "refresh_priority s =
     (case thread_current s of
        Inl e \<Rightarrow> Inl e
      | Inr cur \<Rightarrow>
          let s1 = upd_thread cur (\<lambda>th. th\<lparr>priority := init_priority th\<rparr>) s in
          if donations (threads s1 cur) \<noteq> [] then
            let sorted = list_sort (thread_compare_donate_priority s1) (donations (threads s1 cur));
                s2 = upd_thread cur (\<lambda>th. th\<lparr>donations := sorted\<rparr>) s1;
                front = hd (donations (threads s2 cur))
            in
            if priority (threads s2 front) > priority (threads s2 cur)
            then Inr (upd_thread cur (\<lambda>th. th\<lparr>priority := priority (threads s2 front)\<rparr>) s2)
            else Inr s2
          else Inr s1)"

subsection \<open>Creating threads\<close>

text \<open>\<open>memset (t, 0, sizeof *t)\<close>: every member zero; \<open>THREAD_RUNNING\<close> is the enum's 0.\<close>

definition zero_thread :: thread where
  "zero_thread = \<lparr>tid = 0, status = THREAD_RUNNING, name = [], priority = 0,
     init_priority = 0, wait_on_lock = 0, donations = [], wakeup_tick = 0, children = [],
     fork_sema = 0, wait_sema = 0, free_sema = 0, fdt = 0, next_fd = 0, max_fd = 0,
     running_file = 0, tf_rsp = 0, tf_rip = 0, tf_rdi = 0, tf_rsi = 0, magic = 0\<rparr>"

text \<open>
  \<open>name\<close> is a C string, never \<open>NULL\<close> here; \<open>strlcpy\<close> keeps what fits in the
  16 bytes of \<open>t->name\<close>.
\<close>

definition init_thread :: "thread_ptr \<Rightarrow> string \<Rightarrow> int \<Rightarrow> kstate \<Rightarrow> fault + kstate" where
  "init_thread t nm prio s =
     (if t = 0 then Inl ASSERT_failed
      else if \<not> (PRI_MIN \<le> prio \<and> prio \<le> PRI_MAX) then Inl ASSERT_failed
      else Inr (s\<lparr>threads := (threads s)(t :=
             zero_thread\<lparr>status := THREAD_BLOCKED, name := take 15 nm,
               tf_rsp := t + PGSIZE - 8, priority := prio, magic := THREAD_MAGIC,
               init_priority := prio, wait_on_lock := 0, donations := [], children := [],
               fork_sema := 0, wait_sema := 0, free_sema := 0, running_file := 0\<rparr>)\<rparr>))"

text \<open>
  \<open>tid_lock\<close> is taken and released around the increment by threads/synch.c, which
  is not among the sources; an uncontended pair is taken to leave this state alone.
\<close>

definition allocate_tid :: "kstate \<Rightarrow> int \<times> kstate" where
  "allocate_tid s = (next_tid s, s\<lparr>next_tid := next_tid s + 1\<rparr>)"

text \<open>
  The memory before \<open>thread_init\<close>: static variables are zero unless initialised
  (\<open>next_tid = 1\<close>), interrupts are off, and the loader has put the stack in the page
  at \<open>main_page\<close>.
\<close>

definition boot_state :: "thread_ptr \<Rightarrow> kstate" where
  "boot_state main_page =
     \<lparr>threads = (\<lambda>_. zero_thread), locks = (\<lambda>_. \<lparr>holder = 0\<rparr>), fd_tables = (\<lambda>_ _. 0),
      ready_list = [], sleep_list = [], next_tick_to_awake = 0, idle_thread = 0,
      initial_thread = 0, destruction_req = [], thread_ticks = 0, next_tid = 1,
      running = main_page, level = INTR_OFF, in_external_intr = False\<rparr>"

definition thread_init :: "kstate \<Rightarrow> fault + kstate" where
  "thread_init s =
     (if level s \<noteq> INTR_OFF then Inl ASSERT_failed
      else
        let s1 = s\<lparr>ready_list := [], destruction_req := [], sleep_list := []\<rparr>;
            s2 = s1\<lparr>initial_thread := running s1\<rparr>
        in case init_thread (initial_thread s2) ''main'' PRI_DEFAULT s2 of
             Inl e \<Rightarrow> Inl e
           | Inr s3 \<Rightarrow>
               let s4 = upd_thread (initial_thread s3) (\<lambda>th. th\<lparr>status := THREAD_RUNNING\<rparr>) s3;
                   (new_tid, s5) = allocate_tid s4
               in Inr (upd_thread (initial_thread s5) (\<lambda>th. th\<lparr>tid := new_tid\<rparr>) s5))"

text \<open>
  \<open>thread_create\<close> either returns a value or stops the kernel (a failed \<open>ASSERT\<close>, a
  write through \<open>NULL\<close>); both come with the state reached. \<open>page\<close> is what
  \<open>palloc_get_page (PAL_ZERO)\<close> returned and \<open>fdt_pages\<close> what
  \<open>palloc_get_multiple (PAL_ZERO, FDT_PAGE_CNT)\<close> returned: the allocator is not
  among the sources, and either call may return \<open>NULL\<close>. Of the interrupt frame,
  \<open>rip\<close>, \<open>rdi\<close> and \<open>rsi\<close> are kept; the segment selectors and flags are constants
  of headers that are not among the sources.
\<close>

datatype create_result = Returned int kstate | Stopped fault kstate

definition thread_create ::
    "string \<Rightarrow> int \<Rightarrow> nat \<Rightarrow> nat \<Rightarrow> thread_ptr \<Rightarrow> nat \<Rightarrow> kstate \<Rightarrow> create_result" where
  "thread_create nm prio function aux page fdt_pages s =
     (if function = 0 then Stopped ASSERT_failed s
      else if page = 0 then Returned TID_ERROR s
      else (case init_thread page nm prio s of
        Inl e \<Rightarrow> Stopped e s
      | Inr s1 \<Rightarrow>
          (let (new_tid, s2) = allocate_tid s1;
               s3 = upd_thread page (\<lambda>th. th\<lparr>tid := new_tid\<rparr>) s2
           in (case thread_current s3 of
             Inl e \<Rightarrow> Stopped e s3
           | Inr parent \<Rightarrow>
               (let s4 = upd_thread parent (\<lambda>th. th\<lparr>children := children th @ [page]\<rparr>) s3;
                    s5 = upd_thread page (\<lambda>th. th\<lparr>fdt := fdt_pages\<rparr>) s4
                in
                if fdt_pages = 0 then Stopped NULL_dereference s5
                else
                  (let s6 = s5\<lparr>fd_tables :=
                              (fd_tables s5)(fdt_pages := (\<lambda>_. 0)(0 := 10, 1 := 11))\<rparr>;
                       s7 = upd_thread page
                              (\<lambda>th. th\<lparr>next_fd := 2, max_fd := 1, tf_rip := kernel_thread,
                                      tf_rdi := function, tf_rsi := aux\<rparr>) s6
                   in (case thread_unblock page s7 of
                     Inl e \<Rightarrow> Stopped e s7
                   | Inr s8 \<Rightarrow>
                       (case test_max_priority s8 of
                          Inl e \<Rightarrow> Stopped e s8
                        | Inr s9 \<Rightarrow> Returned new_tid s9))))))))"

section \<open>File-backed pages: vm/file.c\<close>

text \<open>
  Addresses and \<open>size_t\<close> are 64-bit unsigned: natural numbers with the wrap-around
  written out. \<open>off_t\<close> is a signed 32-bit integer; \<open>to_off_t\<close> is the conversion of
  a 64-bit value to it.
\<close>

type_synonym file_ptr = nat



datatype vm_type = VM_UNINIT | VM_ANON | VM_FILE

datatype page_operations = uninit_ops | anon_ops | file_ops

datatype vm_initializer = lazy_load_file_init

text \<open>
  \<open>struct mmap_info\<close>, \<open>struct file_page\<close> and \<open>struct page\<close> are declared in
  vm/vm.h and vm/file.h, which are not among the sources: these are the members
  vm/file.c uses (\<open>mi->file\<close>, \<open>mi->offset\<close>, \<open>mi->read_bytes\<close>; \<open>file_page->file\<close>,
  \<open>->ofs\<close>, \<open>->size\<close>), prefixed where records would share a name.
\<close>

record mmap_info =
  mi_file :: file_ptr
  mi_offset :: int
  mi_read_bytes :: nat

record file_page =
  fp_file :: file_ptr
  fp_ofs :: int
  fp_size :: nat

record page =
  operations :: page_operations
  va :: nat
  frame :: nat
  writable :: bool
  uninit_init :: vm_initializer
  uninit_type :: vm_type
  uninit_aux :: mmap_info
  file_pg :: file_page

record mmap_file_info =
  mfi_start :: nat
  mfi_end :: nat

text \<open>Calls on the file interface (filesys/file.c is outside the sources), as made.\<close>

datatype file_call =
    File_reopen file_ptr file_ptr
  | File_seek file_ptr int
  | File_read file_ptr nat nat
  | File_write file_ptr nat nat
  | File_close file_ptr

text \<open>
  What vm/file.c works on: the supplemental page table of the running thread, the
  static \<open>mmap_file_list\<close>, the dirty bits of \<open>thread_current ()->pml4\<close>, the list
  the frames are linked in, user memory, and the calls made on files so far.

  Modelled from the spec: \<open>list_init\<close> and \<open>list_push_back\<close> of lib/kernel/list.c,
  which is not among the sources; the specification only says that the kernel's
  queues are intrusive lists. A list can be used once \<open>list_init\<close> has linked its
  two sentinels. \<open>mmap_file_list\<close> is a static of vm/file.c, zero-filled when the
  kernel is loaded, and the one \<open>list_init\<close> for it, in \<open>vm_file_init\<close>, is commented
  out: the list is \<open>None\<close> until \<open>list_init\<close> has run, and \<open>list_push_back\<close> on such
  a list fails the assertion of \<open>list_insert\<close>, as in the stock kernel library.
\<close>

record vmstate =
  spt :: "nat \<rightharpoonup> page"
  mmap_file_list :: "mmap_file_info list option"
  dirty :: "nat \<Rightarrow> bool"
  frame_table :: "nat list"
  mem :: "nat \<Rightarrow> nat"
  file_calls :: "file_call list"
  next_handle :: file_ptr

text \<open>The body of \<open>vm_file_init\<close> is a comment.\<close>

definition vm_file_init :: "vmstate \<Rightarrow> vmstate" where
  "vm_file_init s = s"



definition file_backed_initializer :: "page \<Rightarrow> bool \<times> page" where
  "file_backed_initializer pg =
     (let f = mi_file (uninit_aux pg)
      in (True, pg\<lparr>operations := file_ops, file_pg := (file_pg pg)\<lparr>fp_file := f\<rparr>\<rparr>))"

text \<open>
  \<open>file_backed_destroy\<close> reads the page and acts on the files and the frame list.
\<close>

definition file_backed_destroy :: "page \<Rightarrow> vmstate \<Rightarrow> vmstate" where
  "file_backed_destroy pg s =
     (let fp = file_pg pg;
          s1 = (if dirty s (va pg)
                then s\<lparr>file_calls := file_calls s @
                        [File_seek (fp_file fp) (fp_ofs fp),
                         File_write (fp_file fp) (va pg) (fp_size fp)]\<rparr>
                else s);
          s2 = s1\<lparr>file_calls := file_calls s1 @ [File_close (fp_file fp)]\<rparr>
      in if frame pg \<noteq> 0
         then s2\<lparr>frame_table := remove1 (frame pg) (frame_table s2)\<rparr>
         else s2)"

text \<open>
  Modelled from the spec: \<open>file_read\<close> ("\<open>read(n) -> bytes_read\<close>") stores at the
  buffer at most \<open>n\<close> of the bytes the file has from its position on, \<open>avail\<close>, and
  returns how many.
\<close>

definition store_bytes :: "nat \<Rightarrow> nat list \<Rightarrow> (nat \<Rightarrow> nat) \<Rightarrow> (nat \<Rightarrow> nat)" where
  "store_bytes a bs m = (\<lambda>x. if a \<le> x \<and> x < a + length bs then bs ! (x - a) else m x)"

definition lazy_load_file :: "page \<Rightarrow> mmap_info \<Rightarrow> nat list \<Rightarrow> vmstate \<Rightarrow> bool \<times> page \<times> vmstate" where
  "lazy_load_file pg mi avail s =
     (let got = take (mi_read_bytes mi) avail;
          s1 = s\<lparr>file_calls := file_calls s @
                  [File_seek (mi_file mi) (mi_offset mi),
                   File_read (mi_file mi) (va pg) (mi_read_bytes mi)],
                mem := store_bytes (va pg) got (mem s)\<rparr>;
          pg1 = pg\<lparr>file_pg := (file_pg pg)\<lparr>fp_size := length got, fp_ofs := mi_offset mi\<rparr>\<rparr>;
          sz = fp_size (file_pg pg1);
          s2 = (if sz \<noteq> PGSIZE
                then s1\<lparr>mem := store_bytes (va pg1 + sz) (replicate (PGSIZE - sz) 0) (mem s1)\<rparr>
                else s1);
          s3 = s2\<lparr>dirty := (dirty s2)(va pg1 := False)\<rparr>
      in (True, pg1, s3))"





section \<open>Notions the properties are stated with\<close>

text \<open>The body of the loop of \<open>donate_priority\<close> once \<open>holder\<close> is known.\<close>

definition donate_step :: "thread_ptr \<Rightarrow> thread_ptr \<Rightarrow> kstate \<Rightarrow> kstate" where
  "donate_step cur h s =
     (if priority (threads s h) < priority (threads s cur)
      then upd_thread h (\<lambda>th. th\<lparr>priority := priority (threads s cur)\<rparr>) s
      else s)"

text \<open>
  The chain \<open>cur \<rightarrow> lock.holder \<rightarrow> holder.wait_on_lock.holder \<rightarrow> \<dots>\<close> of the
  specification: the holders reached from \<open>cur\<close> in at most \<open>n\<close> steps, \<open>cur\<close> itself
  left out. It ends at a thread that waits for no lock (or for a lock without
  holder). \<open>chain_held\<close> says that every lock waited for on the way has a holder.
\<close>

fun donation_chain :: "nat \<Rightarrow> thread_ptr \<Rightarrow> kstate \<Rightarrow> thread_ptr list" where
  "donation_chain 0 cur s = []"
| "donation_chain (Suc n) cur s =
     (if wait_on_lock (threads s cur) = 0 then []
      else let h = holder (locks s (wait_on_lock (threads s cur)))
           in if h = 0 then [] else h # donation_chain n h s)"

fun chain_held :: "nat \<Rightarrow> thread_ptr \<Rightarrow> kstate \<Rightarrow> bool" where
  "chain_held 0 cur s = True"
| "chain_held (Suc n) cur s =
     (if wait_on_lock (threads s cur) = 0 then True
      else let h = holder (locks s (wait_on_lock (threads s cur)))
           in h \<noteq> 0 \<and> chain_held n h s)"

text \<open>The maxima of \<open>p\<close> and the prefixes of a list.\<close>

fun running_max :: "int \<Rightarrow> int list \<Rightarrow> int list" where
  "running_max p [] = []"
| "running_max p (q # qs) = max p q # running_max (max p q) qs"

definition same_links :: "kstate \<Rightarrow> kstate \<Rightarrow> bool" where
  "same_links s1 s = (locks s1 = locks s
     \<and> (\<forall>u. wait_on_lock (threads s1 u) = wait_on_lock (threads s u)))"

text \<open>The ready list is in descending order of (effective) priority.\<close>

definition ready_sorted :: "kstate \<Rightarrow> bool" where
  "ready_sorted s =
     sorted_wrt (\<lambda>a b. priority (threads s a) \<ge> priority (threads s b)) (ready_list s)"



section \<open>States used as examples\<close>

text \<open>
  The state \<open>thread_init\<close> and \<open>thread_start\<close> leave: the initial thread \<open>main\<close> runs
  in the page at 4096; it has created the idle thread in the page at 8192, with its
  descriptor table in the pages at 65536, so the idle thread is \<open>main\<close>'s child; the
  idle thread has run once, has set \<open>idle_thread\<close> and has blocked itself; interrupts
  are on. \<open>idle_function\<close> and \<open>idle_started\<close> are the addresses of \<open>idle\<close> and of the
  semaphore passed to it. \<open>next_tick_to_awake\<close> still has the value it was loaded
  with: only \<open>update_next_tick_to_awake\<close> and \<open>thread_awake\<close> assign it.
\<close>

definition idle_function :: nat where
  "idle_function = 2"

definition idle_started :: nat where
  "idle_started = 3"

definition blocked_thread :: "int \<Rightarrow> int \<Rightarrow> thread" where
  "blocked_thread prio wake =
     zero_thread\<lparr>status := THREAD_BLOCKED, priority := prio, init_priority := prio,
       wakeup_tick := wake, magic := THREAD_MAGIC\<rparr>"

definition started_state :: kstate where
  "started_state =
     (boot_state 4096)
       \<lparr>threads := (\<lambda>_. zero_thread)
          (4096 := zero_thread\<lparr>tid := 1, name := ''main'', priority := PRI_DEFAULT,
                     init_priority := PRI_DEFAULT, children := [8192], tf_rsp := 8184,
                     magic := THREAD_MAGIC\<rparr>,
           8192 := zero_thread\<lparr>tid := 2, status := THREAD_BLOCKED, name := ''idle'',
                     priority := PRI_MIN, init_priority := PRI_MIN, fdt := 65536,
                     next_fd := 2, max_fd := 1, tf_rsp := 12280, tf_rip := kernel_thread,
                     tf_rdi := idle_function, tf_rsi := idle_started,
                     magic := THREAD_MAGIC\<rparr>),
        fd_tables := (\<lambda>_ _. 0)(65536 := (\<lambda>_. 0)(0 := 10, 1 := 11)),
        idle_thread := 8192, initial_thread := 4096, next_tid := 3, level := INTR_ON\<rparr>"

text \<open>
  Scenario S3 of the specification: three threads sleep until ticks 10, 20 and 15,
  in that order, while \<open>main\<close> runs.
\<close>

definition sleepers_state :: kstate where
  "sleepers_state =
     started_state
       \<lparr>threads := (threads started_state)
          (12288 := blocked_thread 31 10, 16384 := blocked_thread 31 20,
           20480 := blocked_thread 31 15),
        sleep_list := [12288, 16384, 20480], next_tick_to_awake := 10\<rparr>"

text \<open>
  A nested wait: \<open>main\<close> (priority 20) is about to wait for lock 100, held by the
  thread at 12288 (priority 30), which waits for lock 200, held by the thread at
  16384 (priority 10). A holder below its waiter, as here, is what a walk that stopped
  at \<open>DONATE_MAX_DEPTH\<close> leaves behind, or a holder that has lowered its own priority.
\<close>

definition nested_state :: kstate where
  "nested_state =
     started_state
       \<lparr>threads := (threads started_state)
          (4096 := (threads started_state 4096)
                     \<lparr>priority := 20, init_priority := 20, wait_on_lock := 100\<rparr>,
           12288 := (blocked_thread 30 0)\<lparr>wait_on_lock := 200\<rparr>,
           16384 := (blocked_thread 10 0)\<lparr>status := THREAD_READY\<rparr>),
        locks := (locks started_state)(100 := \<lparr>holder = 12288\<rparr>, 200 := \<lparr>holder = 16384\<rparr>),
        ready_list := [16384], level := INTR_OFF\<rparr>"

text \<open>
  Scenario S2 of the specification: \<open>main\<close> has base priority 20, two donors of
  priorities 30 and 40, and an effective priority (63) left from a donor that is gone.
\<close>

definition donors_state :: kstate where
  "donors_state =
     started_state
       \<lparr>threads := (threads started_state)
          (4096 := (threads started_state 4096)
                     \<lparr>priority := 63, init_priority := 20, donations := [12288, 16384]\<rparr>,
           12288 := (blocked_thread 30 0)\<lparr>wait_on_lock := 200\<rparr>,
           16384 := (blocked_thread 40 0)\<lparr>wait_on_lock := 100\<rparr>),
        locks := (locks started_state)(100 := \<lparr>holder = 4096\<rparr>, 200 := \<lparr>holder = 4096\<rparr>)\<rparr>"

text \<open>
  A priority inversion: \<open>main\<close> (priority 30) is about to wait for lock 100, whose
  holder (priority 20) is in the ready list behind a thread of priority 25.
\<close>

definition inversion_state :: kstate where
  "inversion_state =
     started_state
       \<lparr>threads := (threads started_state)
          (4096 := (threads started_state 4096)
                     \<lparr>priority := 30, init_priority := 30, wait_on_lock := 100\<rparr>,
           12288 := (blocked_thread 25 0)\<lparr>status := THREAD_READY\<rparr>,
           16384 := (blocked_thread 20 0)\<lparr>status := THREAD_READY\<rparr>,
           20480 := blocked_thread 25 0),
        locks := (locks started_state)(100 := \<lparr>holder = 16384\<rparr>),
        ready_list := [12288, 16384], level := INTR_OFF\<rparr>"



section \<open>Properties\<close>

subsection \<open>Lists\<close>

lemma set_list_insert_ordered: "set (list_insert_ordered lt x xs) = insert x (set xs)"
  by (induction xs) auto

lemma Min_insert_min:
  fixes a b :: int
  shows "finite S \<Longrightarrow> Min (insert (min a b) S) = Min (insert a (insert b S))"
  by (cases "S = {}") (simp_all add: min.assoc)

subsection \<open>Unblocking\<close>

lemma thread_unblock_Inr:
  assumes "is_thread s t" "status (threads s t) = THREAD_BLOCKED"
  shows "thread_unblock t s =
     Inr (upd_thread t (\<lambda>th. th\<lparr>status := THREAD_READY\<rparr>)
        (s\<lparr>ready_list := list_insert_ordered (thread_compare_priority s) t (ready_list s)\<rparr>))"
  using assms by (simp add: thread_unblock_def)

subsection \<open>The wake sweep\<close>

lemma thread_awake_loop_correct:
  assumes "distinct rest"
    and "\<forall>t\<in>set rest. is_thread s t \<and> status (threads s t) = THREAD_BLOCKED"
    and "sleep_list s = kept @ rest"
  shows "\<exists>s'. thread_awake_loop now kept rest s = Inr s'
    \<and> sleep_list s' = kept @ filter (\<lambda>t. now < wakeup_tick (threads s t)) rest
    \<and> next_tick_to_awake s' =
        Min (insert (next_tick_to_awake s)
               ((\<lambda>t. wakeup_tick (threads s t)) ` {t \<in> set rest. now < wakeup_tick (threads s t)}))
    \<and> (\<forall>u. threads s' u =
          (if u \<in> set rest \<and> wakeup_tick (threads s u) \<le> now
           then (threads s u)\<lparr>status := THREAD_READY\<rparr> else threads s u))
    \<and> set (ready_list s') = set (ready_list s) \<union> {t \<in> set rest. wakeup_tick (threads s t) \<le> now}"
  using assms
proof (induction rest arbitrary: kept s)
  case Nil
  then show ?case by simp
next
  case (Cons t rest)
  show ?case
  proof (cases "wakeup_tick (threads s t) \<le> now")
    case True
    let ?s0 = "s\<lparr>sleep_list := kept @ rest\<rparr>"
    define s1 where "s1 = upd_thread t (\<lambda>th. th\<lparr>status := THREAD_READY\<rparr>)
        (?s0\<lparr>ready_list := list_insert_ordered (thread_compare_priority ?s0) t (ready_list ?s0)\<rparr>)"
    have ub: "thread_unblock t ?s0 = Inr s1"
      unfolding s1_def using Cons.prems(2) by (intro thread_unblock_Inr) (simp_all add: is_thread_def)
    have tnot: "t \<notin> set rest" using Cons.prems(1) by simp
    have thr1: "\<And>u. threads s1 u = (if u = t then (threads s t)\<lparr>status := THREAD_READY\<rparr> else threads s u)"
      by (simp add: s1_def upd_thread_def)
    have p2: "\<forall>u\<in>set rest. is_thread s1 u \<and> status (threads s1 u) = THREAD_BLOCKED"
      using Cons.prems(2) tnot by (auto simp: is_thread_def thr1)
    have p3: "sleep_list s1 = kept @ rest" by (simp add: s1_def upd_thread_def)
    from Cons.IH[of s1 kept, OF _ p2 p3] Cons.prems(1)
    obtain s' where s': "thread_awake_loop now kept rest s1 = Inr s'"
      "sleep_list s' = kept @ filter (\<lambda>t. now < wakeup_tick (threads s1 t)) rest"
      "next_tick_to_awake s' =
        Min (insert (next_tick_to_awake s1)
               ((\<lambda>t. wakeup_tick (threads s1 t)) ` {t \<in> set rest. now < wakeup_tick (threads s1 t)}))"
      "\<forall>u. threads s' u =
          (if u \<in> set rest \<and> wakeup_tick (threads s1 u) \<le> now
           then (threads s1 u)\<lparr>status := THREAD_READY\<rparr> else threads s1 u)"
      "set (ready_list s') = set (ready_list s1) \<union> {t \<in> set rest. wakeup_tick (threads s1 t) \<le> now}"
      by auto
    have wk: "\<And>u. wakeup_tick (threads s1 u) = wakeup_tick (threads s u)"
      by (simp add: thr1)
    have nt: "next_tick_to_awake s1 = next_tick_to_awake s" by (simp add: s1_def upd_thread_def)
    have rl: "set (ready_list s1) = insert t (set (ready_list s))"
      by (simp add: s1_def upd_thread_def set_list_insert_ordered)
    have run: "thread_awake_loop now kept (t # rest) s = Inr s'"
      using True ub s'(1) by simp
    have c1: "sleep_list s' = kept @ filter (\<lambda>t. now < wakeup_tick (threads s t)) (t # rest)"
      using s'(2) True by (simp add: wk)
    have "{u \<in> set (t # rest). now < wakeup_tick (threads s u)} = {u \<in> set rest. now < wakeup_tick (threads s u)}"
      using True by auto
    then have c2: "next_tick_to_awake s' =
        Min (insert (next_tick_to_awake s)
               ((\<lambda>t. wakeup_tick (threads s t)) ` {u \<in> set (t # rest). now < wakeup_tick (threads s u)}))"
      using s'(3) by (simp add: wk nt)
    have c3: "\<forall>u. threads s' u =
          (if u \<in> set (t # rest) \<and> wakeup_tick (threads s u) \<le> now
           then (threads s u)\<lparr>status := THREAD_READY\<rparr> else threads s u)"
      using s'(4) True tnot by (auto simp: wk thr1)
    have c4: "set (ready_list s') = set (ready_list s) \<union> {u \<in> set (t # rest). wakeup_tick (threads s u) \<le> now}"
      using s'(5) True by (auto simp: wk rl)
    from run c1 c2 c3 c4 show ?thesis by blast
  next
    case False
    let ?s1 = "update_next_tick_to_awake (wakeup_tick (threads s t)) s"
    have thr1: "threads ?s1 = threads s" by (simp add: update_next_tick_to_awake_def)
    have p2: "\<forall>u\<in>set rest. is_thread ?s1 u \<and> status (threads ?s1 u) = THREAD_BLOCKED"
      using Cons.prems(2) by (auto simp: is_thread_def thr1)
    have p3: "sleep_list ?s1 = (kept @ [t]) @ rest"
      using Cons.prems(3) by (simp add: update_next_tick_to_awake_def)
    from Cons.IH[of ?s1 "kept @ [t]", OF _ p2 p3] Cons.prems(1)
    obtain s' where s': "thread_awake_loop now (kept @ [t]) rest ?s1 = Inr s'"
      "sleep_list s' = (kept @ [t]) @ filter (\<lambda>t. now < wakeup_tick (threads ?s1 t)) rest"
      "next_tick_to_awake s' =
        Min (insert (next_tick_to_awake ?s1)
               ((\<lambda>t. wakeup_tick (threads ?s1 t)) ` {t \<in> set rest. now < wakeup_tick (threads ?s1 t)}))"
      "\<forall>u. threads s' u =
          (if u \<in> set rest \<and> wakeup_tick (threads ?s1 u) \<le> now
           then (threads ?s1 u)\<lparr>status := THREAD_READY\<rparr> else threads ?s1 u)"
      "set (ready_list s') = set (ready_list ?s1) \<union> {t \<in> set rest. wakeup_tick (threads ?s1 t) \<le> now}"
      by auto
    have nt: "next_tick_to_awake ?s1 = min (next_tick_to_awake s) (wakeup_tick (threads s t))"
      by (simp add: update_next_tick_to_awake_def min_def)
    have rl: "ready_list ?s1 = ready_list s" by (simp add: update_next_tick_to_awake_def)
    have run: "thread_awake_loop now kept (t # rest) s = Inr s'"
      using False s'(1) by simp
    have c1: "sleep_list s' = kept @ filter (\<lambda>t. now < wakeup_tick (threads s t)) (t # rest)"
      using s'(2) False by (simp add: thr1)
    have eq: "{u \<in> set (t # rest). now < wakeup_tick (threads s u)}
        = insert t {u \<in> set rest. now < wakeup_tick (threads s u)}"
      using False by auto
    have fin: "finite ((\<lambda>t. wakeup_tick (threads s t)) ` {u \<in> set rest. now < wakeup_tick (threads s u)})"
      by simp
    have c2: "next_tick_to_awake s' =
        Min (insert (next_tick_to_awake s)
               ((\<lambda>t. wakeup_tick (threads s t)) ` {u \<in> set (t # rest). now < wakeup_tick (threads s u)}))"
      unfolding eq using s'(3) Min_insert_min[OF fin]
      by (simp add: thr1 nt)
    have c3: "\<forall>u. threads s' u =
          (if u \<in> set (t # rest) \<and> wakeup_tick (threads s u) \<le> now
           then (threads s u)\<lparr>status := THREAD_READY\<rparr> else threads s u)"
      using s'(4) False by (auto simp: thr1)
    have c4: "set (ready_list s') = set (ready_list s) \<union> {u \<in> set (t # rest). wakeup_tick (threads s u) \<le> now}"
      using s'(5) False by (auto simp: thr1 rl)
    from run c1 c2 c3 c4 show ?thesis by blast
  qed
qed

text \<open>
  C7. For every tick \<open>now\<close>, \<open>thread_awake\<close> on a sleep list of distinct, blocked
  threads returns; afterwards the sleep list holds, in their old order, exactly the
  threads whose \<open>wakeup_tick\<close> is later than \<open>now\<close>, \<open>next_tick_to_awake\<close> is the
  minimum of \<open>INT64_MAX\<close> and their wake-up ticks, the threads whose tick is \<open>now\<close> or
  earlier have become \<open>THREAD_READY\<close> and have joined the ready list, and no other
  thread has changed.
\<close>

theorem thread_awake_sweep:
  assumes "distinct (sleep_list s)"
    and "\<forall>t\<in>set (sleep_list s). is_thread s t \<and> status (threads s t) = THREAD_BLOCKED"
  shows "\<exists>s'. thread_awake now s = Inr s'
    \<and> sleep_list s' = filter (\<lambda>t. now < wakeup_tick (threads s t)) (sleep_list s)
    \<and> next_tick_to_awake s' =
        Min (set (INT64_MAX # map (\<lambda>t. wakeup_tick (threads s t))
                               (filter (\<lambda>t. now < wakeup_tick (threads s t)) (sleep_list s))))
    \<and> (\<forall>u. threads s' u =
          (if u \<in> set (sleep_list s) \<and> wakeup_tick (threads s u) \<le> now
           then (threads s u)\<lparr>status := THREAD_READY\<rparr> else threads s u))
    \<and> set (ready_list s') =
        set (ready_list s) \<union> {t \<in> set (sleep_list s). wakeup_tick (threads s t) \<le> now}"
proof -
  let ?s0 = "s\<lparr>next_tick_to_awake := INT64_MAX\<rparr>"
  have a: "\<forall>t\<in>set (sleep_list s). is_thread ?s0 t \<and> status (threads ?s0 t) = THREAD_BLOCKED"
    using assms(2) by (simp add: is_thread_def)
  have b: "sleep_list ?s0 = [] @ sleep_list s" by simp
  from thread_awake_loop_correct[OF assms(1) a b, of now]
  show ?thesis by (simp add: thread_awake_def split del: if_split cong del: if_weak_cong)
qed

theorem thread_awake_sweep_witness:
  "\<exists>s'. thread_awake 15 sleepers_state = Inr s'
     \<and> sleep_list s' = [16384]
     \<and> next_tick_to_awake s' = 20
     \<and> status (threads s' 12288) = THREAD_READY
     \<and> status (threads s' 20480) = THREAD_READY
     \<and> status (threads s' 16384) = THREAD_BLOCKED"
proof -
  have d: "distinct (sleep_list sleepers_state)"
    by (simp add: sleepers_state_def)
  have b: "\<forall>t\<in>set (sleep_list sleepers_state).
      is_thread sleepers_state t \<and> status (threads sleepers_state t) = THREAD_BLOCKED"
    by (simp add: sleepers_state_def started_state_def is_thread_def blocked_thread_def)
  from thread_awake_sweep[OF d b, of 15] obtain s' where
    r: "thread_awake 15 sleepers_state = Inr s'"
    and sl: "sleep_list s' = filter (\<lambda>t. 15 < wakeup_tick (threads sleepers_state t))
         (sleep_list sleepers_state)"
    and nt: "next_tick_to_awake s' =
        Min (set (INT64_MAX # map (\<lambda>t. wakeup_tick (threads sleepers_state t))
          (filter (\<lambda>t. 15 < wakeup_tick (threads sleepers_state t)) (sleep_list sleepers_state))))"
    and th: "\<forall>u. threads s' u =
          (if u \<in> set (sleep_list sleepers_state) \<and> wakeup_tick (threads sleepers_state u) \<le> 15
           then (threads sleepers_state u)\<lparr>status := THREAD_READY\<rparr> else threads sleepers_state u)"
    by blast
  have "sleep_list s' = [16384]"
    using sl by (simp add: sleepers_state_def blocked_thread_def)
  moreover have "next_tick_to_awake s' = 20"
    using nt by (simp add: sleepers_state_def blocked_thread_def INT64_MAX_def)
  moreover have "status (threads s' 12288) = THREAD_READY"
    "status (threads s' 20480) = THREAD_READY" "status (threads s' 16384) = THREAD_BLOCKED"
    using th by (simp_all add: sleepers_state_def blocked_thread_def)
  ultimately show ?thesis using r by blast
qed

subsection \<open>The donation walk\<close>

lemma donation_chain_same_links:
  "same_links s1 s \<Longrightarrow> donation_chain n c s1 = donation_chain n c s"
  by (induction n arbitrary: c) (auto simp: same_links_def Let_def)

lemma chain_held_same_links:
  "same_links s1 s \<Longrightarrow> chain_held n c s1 = chain_held n c s"
  by (induction n arbitrary: c) (auto simp: same_links_def Let_def)

lemma same_links_priority:
  "same_links (upd_thread h (\<lambda>th. th\<lparr>priority := p\<rparr>) s) s"
  by (simp add: same_links_def upd_thread_def)

lemma length_donation_chain: "length (donation_chain n c s) \<le> n"
  by (induction n arbitrary: c) (auto simp: Let_def)

lemma donate_priority_loop_unfold:
  "donate_priority_loop depth cur s =
     (if depth < DONATE_MAX_DEPTH then
        (if wait_on_lock (threads s cur) = 0 then Inr s
         else
           let h = holder (locks s (wait_on_lock (threads s cur))) in
           if h = 0 then Inl NULL_dereference
           else donate_priority_loop (Suc depth) h (donate_step cur h s))
      else Inr s)"
  by (subst donate_priority_loop.simps) (simp add: donate_step_def Let_def)

lemma same_links_donate_step: "same_links (donate_step cur h s) s"
  by (simp add: donate_step_def same_links_priority) (simp add: same_links_def)

lemma threads_donate_step:
  "threads (donate_step cur h s) u =
     (if u = h then (threads s h)\<lparr>priority := max (priority (threads s h)) (priority (threads s cur))\<rparr>
      else threads s u)"
  by (simp add: donate_step_def upd_thread_def max_def)

lemma donate_step_frame: "donate_step cur h s = s\<lparr>threads := threads (donate_step cur h s)\<rparr>"
  by (simp add: donate_step_def upd_thread_def)

lemma walk_monotone:
  assumes "donate_priority_loop depth cur s = Inr s'"
  shows "s' = s\<lparr>threads := threads s'\<rparr>
    \<and> (\<forall>u. threads s' u = (threads s u)\<lparr>priority := priority (threads s' u)\<rparr>)
    \<and> (\<forall>u. priority (threads s u) \<le> priority (threads s' u))
    \<and> (\<forall>u. u \<notin> set (donation_chain (DONATE_MAX_DEPTH - depth) cur s) \<longrightarrow> threads s' u = threads s u)
    \<and> (\<forall>u. priority (threads s' u) \<in>
            (\<lambda>t. priority (threads s t)) ` set (u # cur # donation_chain (DONATE_MAX_DEPTH - depth) cur s))"
  using assms
proof (induction "DONATE_MAX_DEPTH - depth" arbitrary: depth cur s)
  case 0
  then have "s' = s" by (subst (asm) donate_priority_loop_unfold) simp
  then show ?case by simp
next
  case (Suc n)
  then have d: "depth < DONATE_MAX_DEPTH" and n: "n = DONATE_MAX_DEPTH - Suc depth"
    and sn: "DONATE_MAX_DEPTH - depth = Suc n" by auto
  show ?case
  proof (cases "wait_on_lock (threads s cur) = 0")
    case True
    then have "s' = s" using Suc.prems d by (subst (asm) donate_priority_loop_unfold) simp
    then show ?thesis by simp
  next
    case False
    define h where "h = holder (locks s (wait_on_lock (threads s cur)))"
    define s1 where "s1 = donate_step cur h s"
    have unf: "donate_priority_loop depth cur s =
        (if h = 0 then Inl NULL_dereference else donate_priority_loop (Suc depth) h s1)"
      using d False by (subst donate_priority_loop_unfold) (simp add: h_def s1_def Let_def)
    have h0: "h \<noteq> 0" and run: "donate_priority_loop (Suc depth) h s1 = Inr s'"
      using Suc.prems unf by (simp_all split: if_splits)
    have ch: "donation_chain (Suc n) cur s = h # donation_chain n h s"
      using False h0 by (simp add: h_def Let_def)
    have ch1: "donation_chain n h s1 = donation_chain n h s"
      unfolding s1_def by (rule donation_chain_same_links[OF same_links_donate_step])
    note IH = Suc.hyps(1)[OF n run, folded n, unfolded ch1]
    have t1: "\<And>u. threads s1 u =
        (if u = h then (threads s h)\<lparr>priority := max (priority (threads s h)) (priority (threads s cur))\<rparr>
         else threads s u)"
      unfolding s1_def by (rule threads_donate_step)
    have fr1: "s1 = s\<lparr>threads := threads s1\<rparr>"
      unfolding s1_def by (rule donate_step_frame)
    have c0: "s' = s\<lparr>threads := threads s'\<rparr>"
    proof -
      from IH have "s' = s1\<lparr>threads := threads s'\<rparr>" by blast
      also have "\<dots> = s\<lparr>threads := threads s'\<rparr>" by (subst fr1) simp
      finally show ?thesis .
    qed
    have c1: "\<forall>u. threads s' u = (threads s u)\<lparr>priority := priority (threads s' u)\<rparr>"
    proof
      fix u
      from IH have "threads s' u = (threads s1 u)\<lparr>priority := priority (threads s' u)\<rparr>" by blast
      then show "threads s' u = (threads s u)\<lparr>priority := priority (threads s' u)\<rparr>"
        by (simp add: t1 split: if_splits)
    qed
    have c2: "\<forall>u. priority (threads s u) \<le> priority (threads s' u)"
    proof
      fix u
      from IH have "priority (threads s1 u) \<le> priority (threads s' u)" by blast
      moreover have "priority (threads s u) \<le> priority (threads s1 u)" by (simp add: t1)
      ultimately show "priority (threads s u) \<le> priority (threads s' u)" by simp
    qed
    have c3: "\<forall>u. u \<notin> set (donation_chain (Suc n) cur s) \<longrightarrow> threads s' u = threads s u"
    proof (intro allI impI)
      fix u assume "u \<notin> set (donation_chain (Suc n) cur s)"
      then have "u \<noteq> h" "u \<notin> set (donation_chain n h s)" unfolding ch by simp_all
      with IH show "threads s' u = threads s u" by (simp add: t1)
    qed
    have c4: "\<forall>u. priority (threads s' u) \<in>
            (\<lambda>t. priority (threads s t)) ` set (u # cur # donation_chain (Suc n) cur s)"
    proof
      fix u
      from IH have "priority (threads s' u) \<in>
            (\<lambda>t. priority (threads s1 t)) ` set (u # h # donation_chain n h s)" by blast
      then obtain t where t: "t \<in> set (u # h # donation_chain n h s)"
        "priority (threads s' u) = priority (threads s1 t)" by auto
      have "priority (threads s1 t) = priority (threads s t) \<or>
          (t = h \<and> priority (threads s1 t) = priority (threads s cur))"
        by (simp add: t1 max_def)
      with t show "priority (threads s' u) \<in>
            (\<lambda>t. priority (threads s t)) ` set (u # cur # donation_chain (Suc n) cur s)"
        unfolding ch by auto
    qed
    from c0 c1 c2 c3 c4 show ?thesis unfolding sn by blast
  qed
qed

lemma running_max_cong:
  "(\<forall>x\<in>set xs. max m (f1 x) = max m (f x)) \<Longrightarrow>
     running_max m (map f1 xs) = running_max m (map f xs)"
proof (induction xs arbitrary: m)
  case Nil
  then show ?case by simp
next
  case (Cons x xs)
  have h: "max m (f1 x) = max m (f x)" using Cons.prems by simp
  have "\<forall>y\<in>set xs. max (max m (f x)) (f1 y) = max (max m (f x)) (f y)"
  proof
    fix y assume "y \<in> set xs"
    then have "max m (f1 y) = max m (f y)" using Cons.prems by simp
    then show "max (max m (f x)) (f1 y) = max (max m (f x)) (f y)"
      by (metis max.assoc max.commute)
  qed
  from Cons.IH[OF this] show ?case by (simp add: h)
qed

lemma length_running_max: "length (running_max m xs) = length xs"
  by (induction xs arbitrary: m) simp_all

lemma walk_running_max:
  assumes "chain_held (DONATE_MAX_DEPTH - depth) cur s"
  shows "\<exists>s'. donate_priority_loop depth cur s = Inr s'
    \<and> (\<forall>j < length (donation_chain (DONATE_MAX_DEPTH - depth) cur s).
          donation_chain (DONATE_MAX_DEPTH - depth) cur s ! j
            \<notin> set (drop (Suc j) (donation_chain (DONATE_MAX_DEPTH - depth) cur s)) \<longrightarrow>
          priority (threads s' (donation_chain (DONATE_MAX_DEPTH - depth) cur s ! j))
            = running_max (priority (threads s cur))
                (map (\<lambda>t. priority (threads s t))
                   (donation_chain (DONATE_MAX_DEPTH - depth) cur s)) ! j)"
  using assms
proof (induction "DONATE_MAX_DEPTH - depth" arbitrary: depth cur s)
  case 0
  then show ?case by (subst donate_priority_loop_unfold) simp
next
  case (Suc n)
  then have d: "depth < DONATE_MAX_DEPTH" and n: "n = DONATE_MAX_DEPTH - Suc depth"
    and sn: "DONATE_MAX_DEPTH - depth = Suc n" by auto
  show ?case
  proof (cases "wait_on_lock (threads s cur) = 0")
    case True
    then show ?thesis using d unfolding sn
      by (subst donate_priority_loop_unfold) simp
  next
    case False
    define h where "h = holder (locks s (wait_on_lock (threads s cur)))"
    define s1 where "s1 = donate_step cur h s"
    define ch where "ch = donation_chain n h s"
    define m where "m = max (priority (threads s cur)) (priority (threads s h))"
    have h0: "h \<noteq> 0" and held: "chain_held n h s"
      using Suc.prems(1) False unfolding sn by (simp_all add: h_def Let_def)
    have chn: "donation_chain (Suc n) cur s = h # ch"
      using False h0 by (simp add: h_def ch_def Let_def)
    have ch1: "donation_chain n h s1 = ch"
      unfolding s1_def ch_def by (rule donation_chain_same_links[OF same_links_donate_step])
    have held1: "chain_held (DONATE_MAX_DEPTH - Suc depth) h s1"
      unfolding s1_def n[symmetric] using held
      by (simp add: chain_held_same_links[OF same_links_donate_step])
    from Suc.hyps(1)[OF n held1, folded n, unfolded ch1]
    obtain s' where run: "donate_priority_loop (Suc depth) h s1 = Inr s'"
      and pm: "\<forall>j < length ch. ch ! j \<notin> set (drop (Suc j) ch) \<longrightarrow>
          priority (threads s' (ch ! j))
            = running_max (priority (threads s1 h)) (map (\<lambda>t. priority (threads s1 t)) ch) ! j"
      by blast
    have t1: "\<And>u. threads s1 u =
        (if u = h then (threads s h)\<lparr>priority := max (priority (threads s h)) (priority (threads s cur))\<rparr>
         else threads s u)"
      unfolding s1_def by (rule threads_donate_step)
    have p1h: "priority (threads s1 h) = m"
      by (simp add: t1 m_def max.commute)
    have same: "running_max m (map (\<lambda>t. priority (threads s1 t)) ch)
       = running_max m (map (\<lambda>t. priority (threads s t)) ch)"
    proof (rule running_max_cong, rule ballI)
      fix x assume "x \<in> set ch"
      show "max m (priority (threads s1 x)) = max m (priority (threads s x))"
        by (cases "x = h") (simp_all add: t1 m_def)
    qed
    have run0: "donate_priority_loop depth cur s = Inr s'"
      using d False h0 run
      by (subst donate_priority_loop_unfold) (simp add: h_def[symmetric] s1_def[symmetric] Let_def)
    have rm: "running_max (priority (threads s cur)) (map (\<lambda>t. priority (threads s t)) (h # ch))
        = m # running_max m (map (\<lambda>t. priority (threads s t)) ch)"
      by (simp add: m_def)
    have all: "\<forall>j < length (h # ch). (h # ch) ! j \<notin> set (drop (Suc j) (h # ch)) \<longrightarrow>
          priority (threads s' ((h # ch) ! j))
            = running_max (priority (threads s cur))
                (map (\<lambda>t. priority (threads s t)) (h # ch)) ! j"
    proof (intro allI impI)
      fix j assume jl: "j < length (h # ch)"
        and lastocc: "(h # ch) ! j \<notin> set (drop (Suc j) (h # ch))"
      show "priority (threads s' ((h # ch) ! j))
            = running_max (priority (threads s cur))
                (map (\<lambda>t. priority (threads s t)) (h # ch)) ! j"
      proof (cases j)
        case 0
        then have "h \<notin> set ch" using lastocc by simp
        then have "threads s' h = threads s1 h"
          using walk_monotone[OF run] unfolding n[symmetric] ch1 by blast
        then show ?thesis using 0 p1h unfolding rm by simp
      next
        case (Suc j')
        then have j'l: "j' < length ch" and lo: "ch ! j' \<notin> set (drop (Suc j') ch)"
          using jl lastocc by simp_all
        from pm[rule_format, OF j'l lo]
        have "priority (threads s' (ch ! j'))
            = running_max m (map (\<lambda>t. priority (threads s t)) ch) ! j'"
          by (simp add: p1h same)
        then show ?thesis using Suc unfolding rm by simp
      qed
    qed
    show ?thesis unfolding sn chn
      by (rule exI[of _ s'], intro conjI, rule run0, rule all)
  qed
qed

lemma nth_not_in_drop:
  "distinct xs \<Longrightarrow> j < length xs \<Longrightarrow> xs ! j \<notin> set (drop (Suc j) xs)"
  by (metis Cons_nth_drop_Suc distinct.simps(2) distinct_drop)

lemma walk_running_max_distinct:
  assumes "chain_held (DONATE_MAX_DEPTH - depth) cur s"
    and "distinct (donation_chain (DONATE_MAX_DEPTH - depth) cur s)"
  shows "\<exists>s'. donate_priority_loop depth cur s = Inr s'
    \<and> map (\<lambda>t. priority (threads s' t)) (donation_chain (DONATE_MAX_DEPTH - depth) cur s)
        = running_max (priority (threads s cur))
            (map (\<lambda>t. priority (threads s t)) (donation_chain (DONATE_MAX_DEPTH - depth) cur s))"
proof -
  define ch where "ch = donation_chain (DONATE_MAX_DEPTH - depth) cur s"
  from walk_running_max[OF assms(1), folded ch_def]
  obtain s' where run: "donate_priority_loop depth cur s = Inr s'"
    and pm: "\<forall>j < length ch. ch ! j \<notin> set (drop (Suc j) ch) \<longrightarrow>
          priority (threads s' (ch ! j))
            = running_max (priority (threads s cur)) (map (\<lambda>t. priority (threads s t)) ch) ! j"
    by blast
  have "map (\<lambda>t. priority (threads s' t)) ch
        = running_max (priority (threads s cur)) (map (\<lambda>t. priority (threads s t)) ch)"
  proof (rule nth_equalityI)
    show "length (map (\<lambda>t. priority (threads s' t)) ch)
        = length (running_max (priority (threads s cur)) (map (\<lambda>t. priority (threads s t)) ch))"
      by (simp add: length_running_max)
  next
    fix j assume "j < length (map (\<lambda>t. priority (threads s' t)) ch)"
    then have jl: "j < length ch" by simp
    have "ch ! j \<notin> set (drop (Suc j) ch)"
      using assms(2) jl unfolding ch_def[symmetric] by (rule nth_not_in_drop)
    from pm[rule_format, OF jl this] jl
    show "map (\<lambda>t. priority (threads s' t)) ch ! j
        = running_max (priority (threads s cur)) (map (\<lambda>t. priority (threads s t)) ch) ! j"
      by simp
  qed
  with run show ?thesis unfolding ch_def by blast
qed

lemma chain_ends_without_lock:
  "chain_held n cur s \<Longrightarrow> length (donation_chain n cur s) < n \<Longrightarrow>
     wait_on_lock (threads s (last (cur # donation_chain n cur s))) = 0"
proof (induction n arbitrary: cur)
  case 0
  then show ?case by simp
next
  case (Suc n)
  show ?case
  proof (cases "wait_on_lock (threads s cur) = 0")
    case True
    then show ?thesis by simp
  next
    case False
    define h where "h = holder (locks s (wait_on_lock (threads s cur)))"
    have h0: "h \<noteq> 0" and held: "chain_held n h s"
      using Suc.prems(1) False by (simp_all add: h_def Let_def)
    have ch: "donation_chain (Suc n) cur s = h # donation_chain n h s"
      using False h0 by (simp add: h_def Let_def)
    have "length (donation_chain n h s) < n" using Suc.prems(2) unfolding ch by simp
    from Suc.IH[OF held this] show ?thesis unfolding ch by simp
  qed
qed

text \<open>
  C5 (as amended). When the running thread \<open>cur\<close> calls \<open>donate_priority\<close> and every
  lock waited for along the chain has a holder, the walk returns. It visits the chain
  \<open>cur \<rightarrow> lock.holder \<rightarrow> holder.wait_on_lock.holder \<rightarrow> \<dots>\<close>, and at each step the
  priority of the thread before is stored in the next thread when it is strictly
  higher: a visited thread ends with the maximum of the priorities from \<open>cur\<close> up to
  itself (up to its last place on the chain, should the chain pass it twice). The walk
  makes at most \<open>DONATE_MAX_DEPTH = 8\<close> steps, and when it makes fewer its last thread
  waits for no lock. Threads off the chain are as before.
\<close>

theorem donate_priority_running_max:
  assumes cur: "thread_current s = Inr cur"
    and held: "chain_held DONATE_MAX_DEPTH cur s"
  shows "\<exists>s'. donate_priority s = Inr s'
    \<and> (\<forall>j < length (donation_chain DONATE_MAX_DEPTH cur s).
          donation_chain DONATE_MAX_DEPTH cur s ! j
            \<notin> set (drop (Suc j) (donation_chain DONATE_MAX_DEPTH cur s)) \<longrightarrow>
          priority (threads s' (donation_chain DONATE_MAX_DEPTH cur s ! j))
            = running_max (priority (threads s cur))
                (map (\<lambda>t. priority (threads s t)) (donation_chain DONATE_MAX_DEPTH cur s)) ! j)
    \<and> length (donation_chain DONATE_MAX_DEPTH cur s) \<le> DONATE_MAX_DEPTH
    \<and> DONATE_MAX_DEPTH = 8
    \<and> (length (donation_chain DONATE_MAX_DEPTH cur s) < DONATE_MAX_DEPTH \<longrightarrow>
         wait_on_lock (threads s (last (cur # donation_chain DONATE_MAX_DEPTH cur s))) = 0)
    \<and> (\<forall>u. u \<notin> set (donation_chain DONATE_MAX_DEPTH cur s) \<longrightarrow> threads s' u = threads s u)"
proof -
  from walk_running_max[of 0 cur s] held
  obtain s' where run: "donate_priority_loop 0 cur s = Inr s'"
    and pm: "\<forall>j < length (donation_chain DONATE_MAX_DEPTH cur s).
          donation_chain DONATE_MAX_DEPTH cur s ! j
            \<notin> set (drop (Suc j) (donation_chain DONATE_MAX_DEPTH cur s)) \<longrightarrow>
          priority (threads s' (donation_chain DONATE_MAX_DEPTH cur s ! j))
            = running_max (priority (threads s cur))
                (map (\<lambda>t. priority (threads s t)) (donation_chain DONATE_MAX_DEPTH cur s)) ! j"
    by auto
  have r: "donate_priority s = Inr s'" using cur run by (simp add: donate_priority_def)
  have fr: "\<forall>u. u \<notin> set (donation_chain DONATE_MAX_DEPTH cur s) \<longrightarrow> threads s' u = threads s u"
    using walk_monotone[OF run] by simp
  have e: "length (donation_chain DONATE_MAX_DEPTH cur s) < DONATE_MAX_DEPTH \<longrightarrow>
         wait_on_lock (threads s (last (cur # donation_chain DONATE_MAX_DEPTH cur s))) = 0"
    using chain_ends_without_lock[OF held] by blast
  have l: "length (donation_chain DONATE_MAX_DEPTH cur s) \<le> DONATE_MAX_DEPTH"
    by (rule length_donation_chain)
  have d8: "DONATE_MAX_DEPTH = 8" by (simp add: DONATE_MAX_DEPTH_def)
  show ?thesis
    by (rule exI[of _ s'], intro conjI, rule r, rule pm, rule l, rule d8, rule e, rule fr)
qed

subsection \<open>Evaluating the examples\<close>

lemmas ex_defs = nested_state_def started_state_def boot_state_def blocked_thread_def zero_thread_def
  thread_current_def is_thread_def THREAD_MAGIC_def PRI_DEFAULT_def PRI_MIN_def

lemma DONATE_MAX_DEPTH_Suc:
  "DONATE_MAX_DEPTH = Suc (Suc (Suc (Suc (Suc (Suc (Suc (Suc 0)))))))"
  by (simp add: DONATE_MAX_DEPTH_def)

lemma nested_chain: "donation_chain DONATE_MAX_DEPTH 4096 nested_state = [12288, 16384]"
  by (simp add: DONATE_MAX_DEPTH_Suc ex_defs)

lemma nested_held: "chain_held DONATE_MAX_DEPTH 4096 nested_state"
  by (simp add: DONATE_MAX_DEPTH_Suc ex_defs)

lemma nested_current: "thread_current nested_state = Inr 4096"
  by (simp add: ex_defs)

theorem donate_priority_running_max_witness:
  "\<exists>s'. donate_priority nested_state = Inr s'
     \<and> priority (threads s' 12288) = 30
     \<and> priority (threads s' 16384) = 30
     \<and> threads s' 4096 = threads nested_state 4096
     \<and> wait_on_lock (threads nested_state 16384) = 0"
proof -
  from donate_priority_running_max[OF nested_current nested_held, unfolded nested_chain]
  obtain s' where r: "donate_priority nested_state = Inr s'"
    and pm: "\<forall>j < length [12288, 16384::nat].
          [12288, 16384] ! j \<notin> set (drop (Suc j) [12288, 16384::nat]) \<longrightarrow>
          priority (threads s' ([12288, 16384] ! j))
            = running_max (priority (threads nested_state 4096))
                (map (\<lambda>t. priority (threads nested_state t)) [12288, 16384]) ! j"
    and e: "length [12288, 16384::nat] < DONATE_MAX_DEPTH \<longrightarrow>
         wait_on_lock (threads nested_state (last [4096, 12288, 16384])) = 0"
    and fr: "\<forall>u. u \<notin> set [12288, 16384] \<longrightarrow> threads s' u = threads nested_state u"
    by blast
  have a0: "priority (threads s' 12288) = 30"
    using pm[rule_format, of 0] by (simp add: ex_defs)
  have a1: "priority (threads s' 16384) = 30"
    using pm[rule_format, of 1] by (simp add: ex_defs)
  have b: "threads s' 4096 = threads nested_state 4096"
    using fr by simp
  have c: "wait_on_lock (threads nested_state 16384) = 0"
    using e by (simp add: DONATE_MAX_DEPTH_def)
  show ?thesis by (rule exI[of _ s'], intro conjI, rule r, rule a0, rule a1, rule b, rule c)
qed

text \<open>
  C5 as stated fails: in \<open>nested_state\<close> the acquiring thread has priority 20 and the
  second thread of its chain has priority 10; the walk leaves that thread at 30, the
  priority of the thread between them, not at the chain tip's 20.
\<close>

theorem donate_priority_not_chain_tip_counterexample:
  "(case donate_priority nested_state of
      Inr s' \<Rightarrow> priority (threads s' 16384) = 30
    | Inl e \<Rightarrow> False)
   \<and> priority (threads nested_state 4096) = 20
   \<and> priority (threads nested_state 16384) = 10"
proof -
  have d: "distinct (donation_chain (DONATE_MAX_DEPTH - 0) 4096 nested_state)"
    by (simp add: nested_chain)
  from walk_running_max_distinct[of 0 4096 nested_state, OF _ d] nested_held
  obtain s' where run: "donate_priority_loop 0 4096 nested_state = Inr s'"
    and pm: "map (\<lambda>t. priority (threads s' t)) (donation_chain DONATE_MAX_DEPTH 4096 nested_state)
        = running_max (priority (threads nested_state 4096))
            (map (\<lambda>t. priority (threads nested_state t))
               (donation_chain DONATE_MAX_DEPTH 4096 nested_state))"
    by auto
  have "priority (threads s' 16384) = 30"
    using pm unfolding nested_chain by (simp add: ex_defs)
  moreover have "donate_priority nested_state = Inr s'"
    using run by (simp add: donate_priority_def nested_current)
  ultimately show ?thesis by (simp add: ex_defs)
qed

text \<open>
  C10. A call of \<open>donate_priority\<close> that returns lowers no thread's priority. A thread
  whose priority has changed lies on the chain of the running thread, its priority
  was strictly lower before, and its new priority is one that the running thread or
  a thread of the chain had; nothing but \<open>priority\<close> members is written, and threads
  off the chain are as before.
\<close>

theorem donate_priority_monotone:
  assumes cur: "thread_current s = Inr cur"
    and run: "donate_priority s = Inr s'"
  shows "(\<forall>u. priority (threads s u) \<le> priority (threads s' u))
    \<and> (\<forall>u. priority (threads s' u) \<noteq> priority (threads s u) \<longrightarrow>
          u \<in> set (donation_chain DONATE_MAX_DEPTH cur s)
          \<and> priority (threads s u) < priority (threads s' u)
          \<and> priority (threads s' u) \<in>
               (\<lambda>t. priority (threads s t)) ` set (cur # donation_chain DONATE_MAX_DEPTH cur s))
    \<and> (\<forall>u. u \<notin> set (donation_chain DONATE_MAX_DEPTH cur s) \<longrightarrow> threads s' u = threads s u)
    \<and> (\<forall>u. threads s' u = (threads s u)\<lparr>priority := priority (threads s' u)\<rparr>)
    \<and> s' = s\<lparr>threads := threads s'\<rparr>"
proof -
  have loop: "donate_priority_loop 0 cur s = Inr s'"
    using cur run by (simp add: donate_priority_def)
  note w = walk_monotone[OF loop, simplified]
  have mono: "\<forall>u. priority (threads s u) \<le> priority (threads s' u)" using w by blast
  have off: "\<forall>u. u \<notin> set (donation_chain DONATE_MAX_DEPTH cur s) \<longrightarrow> threads s' u = threads s u"
    using w by blast
  have only: "\<forall>u. threads s' u = (threads s u)\<lparr>priority := priority (threads s' u)\<rparr>"
    using w by blast
  have rest: "s' = s\<lparr>threads := threads s'\<rparr>" using w by blast
  have from_chain: "\<forall>u. priority (threads s' u) \<in>
      (\<lambda>t. priority (threads s t)) ` set (u # cur # donation_chain DONATE_MAX_DEPTH cur s)"
    using walk_monotone[OF loop] by simp
  have changed: "\<forall>u. priority (threads s' u) \<noteq> priority (threads s u) \<longrightarrow>
          u \<in> set (donation_chain DONATE_MAX_DEPTH cur s)
          \<and> priority (threads s u) < priority (threads s' u)
          \<and> priority (threads s' u) \<in>
               (\<lambda>t. priority (threads s t)) ` set (cur # donation_chain DONATE_MAX_DEPTH cur s)"
  proof (intro allI impI)
    fix u assume ne: "priority (threads s' u) \<noteq> priority (threads s u)"
    have 1: "u \<in> set (donation_chain DONATE_MAX_DEPTH cur s)"
      using off ne by metis
    have 2: "priority (threads s u) < priority (threads s' u)"
      using mono ne by (simp add: order.strict_iff_order)
    from from_chain have "priority (threads s' u) \<in>
      (\<lambda>t. priority (threads s t)) ` set (u # cur # donation_chain DONATE_MAX_DEPTH cur s)" ..
    then have 3: "priority (threads s' u) \<in>
               (\<lambda>t. priority (threads s t)) ` set (cur # donation_chain DONATE_MAX_DEPTH cur s)"
      using ne by auto
    from 1 2 3 show "u \<in> set (donation_chain DONATE_MAX_DEPTH cur s)
          \<and> priority (threads s u) < priority (threads s' u)
          \<and> priority (threads s' u) \<in>
               (\<lambda>t. priority (threads s t)) ` set (cur # donation_chain DONATE_MAX_DEPTH cur s)"
      by blast
  qed
  from mono changed off only rest show ?thesis by blast
qed

lemmas inv_defs = inversion_state_def started_state_def boot_state_def blocked_thread_def zero_thread_def
  thread_current_def is_thread_def THREAD_MAGIC_def PRI_DEFAULT_def PRI_MIN_def

lemma inversion_chain: "donation_chain DONATE_MAX_DEPTH 4096 inversion_state = [16384]"
  by (simp add: DONATE_MAX_DEPTH_Suc inv_defs)

lemma inversion_held: "chain_held DONATE_MAX_DEPTH 4096 inversion_state"
  by (simp add: DONATE_MAX_DEPTH_Suc inv_defs)

lemma inversion_current: "thread_current inversion_state = Inr 4096"
  by (simp add: inv_defs)

lemma inversion_walk:
  "\<exists>s'. donate_priority inversion_state = Inr s'
     \<and> priority (threads s' 16384) = 30
     \<and> threads s' 12288 = threads inversion_state 12288
     \<and> ready_list s' = ready_list inversion_state"
proof -
  have d: "distinct (donation_chain (DONATE_MAX_DEPTH - 0) 4096 inversion_state)"
    by (simp add: inversion_chain)
  from walk_running_max_distinct[of 0 4096 inversion_state, OF _ d] inversion_held
  obtain s' where loop: "donate_priority_loop 0 4096 inversion_state = Inr s'"
    and pm: "map (\<lambda>t. priority (threads s' t)) (donation_chain DONATE_MAX_DEPTH 4096 inversion_state)
        = running_max (priority (threads inversion_state 4096))
            (map (\<lambda>t. priority (threads inversion_state t))
               (donation_chain DONATE_MAX_DEPTH 4096 inversion_state))"
    by auto
  have a: "priority (threads s' 16384) = 30"
    using pm unfolding inversion_chain by (simp add: inv_defs)
  have r: "donate_priority inversion_state = Inr s'"
    using loop by (simp add: donate_priority_def inversion_current)
  note w = walk_monotone[OF loop, simplified]
  have b: "threads s' 12288 = threads inversion_state 12288"
    using w unfolding inversion_chain by simp
  have "s' = inversion_state\<lparr>threads := threads s'\<rparr>" using w by blast
  then have c: "ready_list s' = ready_list inversion_state"
    by (metis kstate.select_convs(4) kstate.surjective kstate.update_convs(1))
  show ?thesis by (rule exI[of _ s'], intro conjI, rule r, rule a, rule b, rule c)
qed

theorem donate_priority_monotone_witness:
  "\<exists>s'. donate_priority inversion_state = Inr s'
     \<and> priority (threads inversion_state 16384) = 20
     \<and> priority (threads s' 16384) = 30
     \<and> priority (threads s' 4096) = 30
     \<and> threads s' 12288 = threads inversion_state 12288"
proof -
  from inversion_walk obtain s' where r: "donate_priority inversion_state = Inr s'"
    and a: "priority (threads s' 16384) = 30" by blast
  note m = donate_priority_monotone[OF inversion_current r]
  have off: "\<forall>u. u \<notin> set (donation_chain DONATE_MAX_DEPTH 4096 inversion_state)
      \<longrightarrow> threads s' u = threads inversion_state u"
    using m by blast
  have b: "threads s' 12288 = threads inversion_state 12288"
    using off unfolding inversion_chain by simp
  have "threads s' 4096 = threads inversion_state 4096"
    using off unfolding inversion_chain by simp
  then have c: "priority (threads s' 4096) = 30" by (simp add: inv_defs)
  have e: "priority (threads inversion_state 16384) = 20" by (simp add: inv_defs)
  show ?thesis by (rule exI[of _ s'], intro conjI, rule r, rule e, rule a, rule c, rule b)
qed

subsection \<open>Refreshing the priority\<close>

lemma sorted_list_insert_ordered:
  fixes f :: "'a \<Rightarrow> int"
  assumes "sorted_wrt (\<lambda>a b. f a \<ge> f b) xs"
  shows "sorted_wrt (\<lambda>a b. f a \<ge> f b) (list_insert_ordered (\<lambda>a b. f a > f b) x xs)"
  using assms by (induction xs) (auto simp: set_list_insert_ordered)

lemma list_sort_acc:
  fixes f :: "'a \<Rightarrow> int"
  assumes "sorted_wrt (\<lambda>a b. f a \<ge> f b) acc"
  shows "sorted_wrt (\<lambda>a b. f a \<ge> f b)
           (foldl (\<lambda>acc x. list_insert_ordered (\<lambda>a b. f a > f b) x acc) acc xs)
       \<and> set (foldl (\<lambda>acc x. list_insert_ordered (\<lambda>a b. f a > f b) x acc) acc xs)
           = set acc \<union> set xs"
  using assms
proof (induction xs arbitrary: acc)
  case Nil
  then show ?case by simp
next
  case (Cons x xs)
  from Cons.IH[OF sorted_list_insert_ordered[OF Cons.prems, of x]]
  show ?case by (simp add: set_list_insert_ordered)
qed

lemma sorted_list_sort:
  fixes f :: "'a \<Rightarrow> int"
  shows "sorted_wrt (\<lambda>a b. f a \<ge> f b) (list_sort (\<lambda>a b. f a > f b) xs)"
  using list_sort_acc[of f "[]" xs] by (simp add: list_sort_def)

lemma set_list_sort:
  fixes f :: "'a \<Rightarrow> int"
  shows "set (list_sort (\<lambda>a b. f a > f b) xs) = set xs"
  using list_sort_acc[of f "[]" xs] by (simp add: list_sort_def)

lemma hd_sorted_desc_Max:
  fixes f :: "'a \<Rightarrow> int"
  assumes "sorted_wrt (\<lambda>a b. f a \<ge> f b) ys" "ys \<noteq> []"
  shows "f (hd ys) = Max (f ` set ys)"
proof (cases ys)
  case Nil
  with assms show ?thesis by simp
next
  case (Cons y rest)
  with assms(1) have "\<forall>z\<in>set rest. f z \<le> f y" by simp
  then have "Max (insert (f y) (f ` set rest)) = f y"
    by (intro Max_eqI) auto
  with Cons show ?thesis by simp
qed

text \<open>
  C6. When \<open>refresh_priority\<close> runs for the running thread \<open>t\<close> (which is not its own
  donor), it returns, and \<open>t\<close>'s priority is the maximum of its \<open>init_priority\<close> and
  the priorities of the threads in its \<open>donations\<close>; so it is at least the
  \<open>init_priority\<close>. The base priority, the set of donors and every other thread are
  as before.
\<close>

theorem refresh_priority_max:
  assumes cur: "thread_current s = Inr t"
    and self: "t \<notin> set (donations (threads s t))"
  shows "\<exists>s'. refresh_priority s = Inr s'
    \<and> priority (threads s' t) =
        Max (set (init_priority (threads s t) #
                  map (\<lambda>d. priority (threads s d)) (donations (threads s t))))
    \<and> init_priority (threads s t) \<le> priority (threads s' t)
    \<and> init_priority (threads s' t) = init_priority (threads s t)
    \<and> set (donations (threads s' t)) = set (donations (threads s t))
    \<and> (\<forall>u. u \<noteq> t \<longrightarrow> threads s' u = threads s u)"
proof -
  define s1 where "s1 = upd_thread t (\<lambda>th. th\<lparr>priority := init_priority th\<rparr>) s"
  define f where "f = (\<lambda>d. priority (threads s1 d))"
  define ds where "ds = donations (threads s t)"
  have cmp: "thread_compare_donate_priority s1 = (\<lambda>a b. f a > f b)"
    by (intro ext) (simp add: thread_compare_donate_priority_def f_def)
  have f_eq: "\<And>d. d \<noteq> t \<Longrightarrow> f d = priority (threads s d)"
    by (simp add: f_def s1_def upd_thread_def)
  have f_t: "f t = init_priority (threads s t)"
    by (simp add: f_def s1_def upd_thread_def)
  have ds1: "donations (threads s1 t) = ds"
    by (simp add: s1_def ds_def upd_thread_def)
  show ?thesis
  proof (cases "ds = []")
    case True
    then have "refresh_priority s = Inr s1"
      using cur ds1 by (simp add: refresh_priority_def s1_def[symmetric])
    moreover have "priority (threads s1 t) = init_priority (threads s t)"
      "init_priority (threads s1 t) = init_priority (threads s t)"
      "\<forall>u. u \<noteq> t \<longrightarrow> threads s1 u = threads s u"
      by (simp_all add: s1_def upd_thread_def)
    ultimately show ?thesis using True ds1 by (simp add: ds_def[symmetric])
  next
    case False
    define srt where "srt = list_sort (\<lambda>a b. f a > f b) ds"
    define s2 where "s2 = upd_thread t (\<lambda>th. th\<lparr>donations := srt\<rparr>) s1"
    define m where "m = Max (f ` set ds)"
    have set_srt: "set srt = set ds" by (simp add: srt_def set_list_sort)
    then have ne: "srt \<noteq> []" using False by auto
    have hdm: "f (hd srt) = m"
      using hd_sorted_desc_Max[OF sorted_list_sort[of f ds], folded srt_def, OF ne] set_srt
      by (simp add: m_def)
    have hd_in: "hd srt \<in> set ds" using ne set_srt by (metis list.set_sel(1))
    then have hd_ne: "hd srt \<noteq> t" using self by (auto simp: ds_def)
    have don2: "donations (threads s2 t) = srt" by (simp add: s2_def upd_thread_def)
    have pr2: "\<And>d. priority (threads s2 d) = f d"
      by (simp add: s2_def f_def upd_thread_def)
    define s3 where "s3 = (if m > f t then upd_thread t (\<lambda>th. th\<lparr>priority := m\<rparr>) s2 else s2)"
    have run: "refresh_priority s = Inr s3"
      using cur False ds1 hdm
      by (simp add: refresh_priority_def s1_def[symmetric] cmp srt_def[symmetric]
          s2_def[symmetric] Let_def don2 pr2 s3_def)
    have img: "f ` set ds = (\<lambda>d. priority (threads s d)) ` set ds"
    proof (intro image_cong refl)
      fix d assume "d \<in> set ds"
      with self have "d \<noteq> t" by (auto simp: ds_def)
      then show "f d = priority (threads s d)" by (rule f_eq)
    qed
    have fin: "finite (f ` set ds)" "f ` set ds \<noteq> {}" using False by auto
    have p3: "priority (threads s3 t) = max (f t) m"
      by (simp add: s3_def upd_thread_def pr2)
    have "Max (insert (f t) (f ` set ds)) = max (f t) m"
      using fin by (simp add: m_def)
    then have c1: "priority (threads s3 t) =
        Max (set (init_priority (threads s t) # map (\<lambda>d. priority (threads s d)) ds))"
      using p3 img f_t by simp
    have c2: "init_priority (threads s t) \<le> priority (threads s3 t)"
      using p3 f_t by simp
    have c3: "init_priority (threads s3 t) = init_priority (threads s t)"
      by (simp add: s3_def s2_def s1_def upd_thread_def)
    have c4: "set (donations (threads s3 t)) = set ds"
      using set_srt by (simp add: s3_def s2_def upd_thread_def)
    have c5: "\<forall>u. u \<noteq> t \<longrightarrow> threads s3 u = threads s u"
      by (simp add: s3_def s2_def s1_def upd_thread_def)
    from run c1 c2 c3 c4 c5 show ?thesis unfolding ds_def by blast
  qed
qed

lemmas don_defs = donors_state_def started_state_def boot_state_def blocked_thread_def zero_thread_def
  thread_current_def is_thread_def THREAD_MAGIC_def PRI_DEFAULT_def PRI_MIN_def

theorem refresh_priority_max_witness:
  "\<exists>s'. refresh_priority donors_state = Inr s'
     \<and> init_priority (threads s' 4096) = 20
     \<and> priority (threads s' 4096) = 40
     \<and> threads s' 16384 = threads donors_state 16384"
proof -
  have c: "thread_current donors_state = Inr 4096" by (simp add: don_defs)
  have n: "4096 \<notin> set (donations (threads donors_state 4096))" by (simp add: don_defs)
  from refresh_priority_max[OF c n] obtain s' where
    r: "refresh_priority donors_state = Inr s'"
    and p: "priority (threads s' 4096) =
        Max (set (init_priority (threads donors_state 4096) #
                  map (\<lambda>d. priority (threads donors_state d)) (donations (threads donors_state 4096))))"
    and i: "init_priority (threads s' 4096) = init_priority (threads donors_state 4096)"
    and o: "\<forall>u. u \<noteq> 4096 \<longrightarrow> threads s' u = threads donors_state u"
    by blast
  have a: "priority (threads s' 4096) = 40" using p by (simp add: don_defs)
  have b: "init_priority (threads s' 4096) = 20" using i by (simp add: don_defs)
  have d: "threads s' 16384 = threads donors_state 16384" using o by simp
  show ?thesis by (rule exI[of _ s'], intro conjI, rule r, rule b, rule a, rule d)
qed

lemmas sched_defs = thread_sleep_def thread_block_def schedule_def next_thread_to_run_def
  thread_current_def is_thread_def upd_thread_def update_next_tick_to_awake_def thread_launch_def
  started_state_def boot_state_def zero_thread_def THREAD_MAGIC_def PRI_DEFAULT_def PRI_MIN_def

subsection \<open>The earliest wake-up tick before the first sweep\<close>

text \<open>
  C4 at its failing input. \<open>thread_init\<close> leaves the sleep list empty and
  \<open>next_tick_to_awake\<close> at 0, not at \<open>INT64_MAX\<close>; and when \<open>main\<close> then sleeps until
  tick 100, the sleep list holds one thread with \<open>wakeup_tick = 100\<close> while
  \<open>next_tick_to_awake\<close> is still 0.
\<close>

theorem next_tick_to_awake_not_minimum:
  "map_sum id (\<lambda>s. (sleep_list s, next_tick_to_awake s)) (thread_init (boot_state 4096))
     = Inr ([], 0)
   \<and> next_tick_to_awake started_state = 0
   \<and> map_sum id (\<lambda>s. (sleep_list s, map (\<lambda>t. wakeup_tick (threads s t)) (sleep_list s),
        next_tick_to_awake s)) (thread_sleep 100 started_state) = Inr ([4096], [100], 0)"
  by (simp add: thread_init_def init_thread_def allocate_tid_def PRI_MAX_def sched_defs Let_def)

subsection \<open>Creating a thread when an allocation fails\<close>

text \<open>
  The example state is the one the code produces: \<open>thread_init\<close> on the loaded
  kernel, then \<open>thread_create\<close> for the idle thread as \<open>thread_start\<close> calls it; the
  idle thread's first run (it records itself in \<open>idle_thread\<close> and blocks) and
  \<open>intr_enable\<close> give \<open>started_state\<close>.
\<close>

lemma started_state_from_boot:
  "(case thread_init (boot_state 4096) of
      Inl e \<Rightarrow> False
    | Inr s0 \<Rightarrow>
        (case thread_create ''idle'' PRI_MIN idle_function idle_started 8192 65536 s0 of
           Stopped e s1 \<Rightarrow> False
         | Returned r s1 \<Rightarrow>
             r = 2
             \<and> ready_list s1 = [8192]
             \<and> started_state =
                 s1\<lparr>threads := (threads s1)(8192 := (threads s1 8192)\<lparr>status := THREAD_BLOCKED\<rparr>),
                    ready_list := [], idle_thread := 8192, level := INTR_ON\<rparr>))"
  by (simp add: thread_init_def thread_create_def init_thread_def allocate_tid_def
      thread_unblock_def test_max_priority_def thread_current_def is_thread_def upd_thread_def
      thread_compare_priority_def started_state_def boot_state_def zero_thread_def
      idle_function_def idle_started_def kernel_thread_def
      THREAD_MAGIC_def PRI_DEFAULT_def PRI_MIN_def PRI_MAX_def PGSIZE_def Let_def fun_upd_twist)

text \<open>
  C2 at its failing input. \<open>main\<close> creates a thread; the page for the thread is
  allocated at 12288, the pages for its descriptor table are not
  (\<open>palloc_get_multiple\<close> returns \<open>NULL\<close>). \<open>thread_create\<close> does not return
  \<open>TID_ERROR\<close>: it writes \<open>t->fdt[0]\<close> through the null pointer, after it has
  initialised the thread, taken a tid for it and entered it in \<open>main\<close>'s children.
\<close>

theorem thread_create_fdt_allocation_failure:
  "(case thread_create ''worker'' 31 77 0 12288 0 started_state of
      Stopped f s' \<Rightarrow> f = NULL_dereference \<and> children (threads s' 4096) = [8192, 12288]
         \<and> magic (threads s' 12288) = THREAD_MAGIC \<and> tid (threads s' 12288) = 3
         \<and> next_tid s' = 4
    | Returned r s' \<Rightarrow> False)"
  by (simp add: thread_create_def init_thread_def allocate_tid_def sched_defs PRI_MAX_def Let_def)

text \<open>When the first allocation fails, \<open>TID_ERROR\<close> is returned and the state is untouched.\<close>

lemma thread_create_page_allocation_failure:
  "thread_create nm prio f aux 0 fp s =
     (if f = 0 then Stopped ASSERT_failed s else Returned TID_ERROR s)"
  by (simp add: thread_create_def)

subsection \<open>Order of the ready list\<close>

lemma list_insert_ordered_split:
  fixes f :: "'a \<Rightarrow> int"
  shows "list_insert_ordered (\<lambda>a b. f a > f b) x xs =
     takeWhile (\<lambda>e. f e \<ge> f x) xs @ x # dropWhile (\<lambda>e. f e \<ge> f x) xs"
  by (induction xs) auto

lemma thread_compare_priority_fun:
  "thread_compare_priority s = (\<lambda>a b. priority (threads s a) > priority (threads s b))"
  by (intro ext) (simp add: thread_compare_priority_def)

lemma ready_sorted_eq:
  assumes "ready_list s' = ready_list s"
    and "\<forall>u. priority (threads s' u) = priority (threads s u)"
  shows "ready_sorted s' = ready_sorted s"
  using assms by (simp add: ready_sorted_def)

lemma sorted_wrt_tl: "sorted_wrt P xs \<Longrightarrow> sorted_wrt P (tl xs)"
  by (cases xs) simp_all

lemma ready_sorted_tl:
  assumes "ready_sorted s" "ready_list s' = tl (ready_list s)"
    and "\<forall>u. priority (threads s' u) = priority (threads s u)"
  shows "ready_sorted s'"
  using assms sorted_wrt_tl by (simp add: ready_sorted_def)

lemma ready_sorted_insert:
  assumes "ready_sorted s"
    and "ready_list s' = list_insert_ordered (thread_compare_priority s) t (ready_list s)"
    and "\<forall>u. priority (threads s' u) = priority (threads s u)"
  shows "ready_sorted s'"
  using assms sorted_list_insert_ordered[of "\<lambda>a. priority (threads s a)" "ready_list s" t]
  by (simp add: ready_sorted_def thread_compare_priority_fun)

lemma schedule_ready:
  assumes "schedule s = Inr s'"
  shows "ready_list s' = tl (ready_list s) \<and> (\<forall>u. priority (threads s' u) = priority (threads s u))"
  using assms
  by (cases "ready_list s")
     (auto simp: schedule_def next_thread_to_run_def Let_def upd_thread_def thread_launch_def
        split: if_splits)

lemma do_schedule_ready:
  assumes "do_schedule st s = Inr s'"
  shows "ready_list s' = tl (ready_list s) \<and> (\<forall>u. priority (threads s' u) = priority (threads s u))"
proof -
  from assms obtain c where
    sch: "schedule (upd_thread c (\<lambda>th. th\<lparr>status := st\<rparr>) (s\<lparr>destruction_req := []\<rparr>)) = Inr s'"
    by (auto simp: do_schedule_def Let_def split: if_splits sum.splits)
  from schedule_ready[OF sch] show ?thesis by (simp add: upd_thread_def)
qed

text \<open>
  The two places that insert into the ready list keep it in descending order of
  priority. \<open>thread_unblock t\<close> fails its assertion unless \<open>t\<close> is \<open>THREAD_BLOCKED\<close>;
  for a blocked thread it returns, having put \<open>t\<close> behind every thread of the same or
  a higher priority and before the first lower one (FIFO among equals), set \<open>t\<close> to
  \<open>THREAD_READY\<close>, changed no other thread and left the running thread running.
\<close>

lemma thread_unblock_inserts_in_order:
  "(status (threads s t) \<noteq> THREAD_BLOCKED \<longrightarrow> thread_unblock t s = Inl ASSERT_failed)
   \<and> (is_thread s t \<and> status (threads s t) = THREAD_BLOCKED \<longrightarrow>
        (\<exists>s'. thread_unblock t s = Inr s'
           \<and> ready_list s' =
               takeWhile (\<lambda>e. priority (threads s e) \<ge> priority (threads s t)) (ready_list s)
               @ t # dropWhile (\<lambda>e. priority (threads s e) \<ge> priority (threads s t)) (ready_list s)
           \<and> (ready_sorted s \<longrightarrow> ready_sorted s')
           \<and> threads s' t = (threads s t)\<lparr>status := THREAD_READY\<rparr>
           \<and> (\<forall>u. u \<noteq> t \<longrightarrow> threads s' u = threads s u)
           \<and> running s' = running s))"
proof (intro conjI impI)
  assume "status (threads s t) \<noteq> THREAD_BLOCKED"
  then show "thread_unblock t s = Inl ASSERT_failed" by (simp add: thread_unblock_def)
next
  assume a: "is_thread s t \<and> status (threads s t) = THREAD_BLOCKED"
  define s' where "s' = upd_thread t (\<lambda>th. th\<lparr>status := THREAD_READY\<rparr>)
        (s\<lparr>ready_list := list_insert_ordered (thread_compare_priority s) t (ready_list s)\<rparr>)"
  have r: "thread_unblock t s = Inr s'"
    using a thread_unblock_Inr[of s t] by (simp add: s'_def)
  have rl: "ready_list s' = list_insert_ordered (thread_compare_priority s) t (ready_list s)"
    by (simp add: s'_def upd_thread_def)
  have pr: "\<forall>u. priority (threads s' u) = priority (threads s u)"
    by (simp add: s'_def upd_thread_def)
  have 1: "ready_list s' =
               takeWhile (\<lambda>e. priority (threads s e) \<ge> priority (threads s t)) (ready_list s)
               @ t # dropWhile (\<lambda>e. priority (threads s e) \<ge> priority (threads s t)) (ready_list s)"
    unfolding rl thread_compare_priority_fun
    by (rule list_insert_ordered_split[of "\<lambda>a. priority (threads s a)"])
  have 2: "ready_sorted s \<longrightarrow> ready_sorted s'"
    using ready_sorted_insert[OF _ rl pr] by blast
  have 3: "threads s' t = (threads s t)\<lparr>status := THREAD_READY\<rparr>"
    "\<forall>u. u \<noteq> t \<longrightarrow> threads s' u = threads s u" "running s' = running s"
    by (simp_all add: s'_def upd_thread_def)
  show "\<exists>s'. thread_unblock t s = Inr s'
           \<and> ready_list s' =
               takeWhile (\<lambda>e. priority (threads s e) \<ge> priority (threads s t)) (ready_list s)
               @ t # dropWhile (\<lambda>e. priority (threads s e) \<ge> priority (threads s t)) (ready_list s)
           \<and> (ready_sorted s \<longrightarrow> ready_sorted s')
           \<and> threads s' t = (threads s t)\<lparr>status := THREAD_READY\<rparr>
           \<and> (\<forall>u. u \<noteq> t \<longrightarrow> threads s' u = threads s u)
           \<and> running s' = running s"
    by (rule exI[of _ s'], intro conjI, rule r, rule 1, rule 2, rule 3(1), rule 3(2), rule 3(3))
qed

text \<open>
  \<open>thread_yield\<close> by a thread other than the idle thread inserts the running thread
  the same way; the scheduler then takes the head of the list.
\<close>

lemma thread_yield_inserts_in_order:
  assumes y: "thread_yield s = Inr s'"
  shows "\<exists>cur. thread_current s = Inr cur
    \<and> ready_list s' =
        tl (if cur \<noteq> idle_thread s
            then takeWhile (\<lambda>e. priority (threads s e) \<ge> priority (threads s cur)) (ready_list s)
                 @ cur # dropWhile (\<lambda>e. priority (threads s e) \<ge> priority (threads s cur))
                           (ready_list s)
            else ready_list s)
    \<and> (\<forall>u. priority (threads s' u) = priority (threads s u))
    \<and> (ready_sorted s \<longrightarrow> ready_sorted s')"
proof -
  from y obtain c where c: "thread_current s = Inr c"
    by (auto simp: thread_yield_def split: sum.splits)
  define L where "L = (if c \<noteq> idle_thread s
     then list_insert_ordered (thread_compare_priority s) c (ready_list s) else ready_list s)"
  define s2 where "s2 = s\<lparr>level := INTR_OFF, ready_list := L\<rparr>"
  have tc: "thread_compare_priority (s\<lparr>level := INTR_OFF\<rparr>) = thread_compare_priority s"
    by (simp add: thread_compare_priority_fun)
  from y c obtain s3 where ds: "do_schedule THREAD_READY s2 = Inr s3"
    and s': "s' = (if running s3 = c then s3\<lparr>level := level s\<rparr> else s3)"
    by (auto simp: thread_yield_def s2_def L_def tc Let_def split: if_splits sum.splits)
  note d = do_schedule_ready[OF ds]
  have rl: "ready_list s' = tl L" using d s' by (simp add: s2_def)
  have pr: "\<forall>u. priority (threads s' u) = priority (threads s u)"
    using d s' by (simp add: s2_def)
  have Leq: "L = (if c \<noteq> idle_thread s
            then takeWhile (\<lambda>e. priority (threads s e) \<ge> priority (threads s c)) (ready_list s)
                 @ c # dropWhile (\<lambda>e. priority (threads s e) \<ge> priority (threads s c))
                         (ready_list s)
            else ready_list s)"
    unfolding L_def thread_compare_priority_fun
    by (simp add: list_insert_ordered_split[of "\<lambda>a. priority (threads s a)"])
  have so: "ready_sorted s \<longrightarrow> ready_sorted s'"
  proof
    assume rs: "ready_sorted s"
    have "sorted_wrt (\<lambda>a b. priority (threads s a) \<ge> priority (threads s b)) L"
      using rs sorted_list_insert_ordered[of "\<lambda>a. priority (threads s a)" "ready_list s" c]
      by (simp add: L_def ready_sorted_def thread_compare_priority_fun)
    then have "sorted_wrt (\<lambda>a b. priority (threads s a) \<ge> priority (threads s b)) (tl L)"
      by (rule sorted_wrt_tl)
    then show "ready_sorted s'" using rl pr by (simp add: ready_sorted_def)
  qed
  show ?thesis
    by (rule exI[of _ c], intro conjI, rule c, unfold rl Leq[symmetric], rule refl, rule pr, rule so)
qed

lemma inversion_sorted: "ready_sorted inversion_state"
  by (simp add: ready_sorted_def inv_defs)

lemma inversion_donation:
  "donate_priority inversion_state = Inr (donate_step 4096 16384 inversion_state)"
proof -
  have w: "wait_on_lock (threads inversion_state 4096) = 100"
    "holder (locks inversion_state 100) = 16384"
    by (simp_all add: inv_defs)
  have w1: "wait_on_lock (threads (donate_step 4096 16384 inversion_state) 16384) = 0"
    by (simp add: threads_donate_step) (simp add: inv_defs)
  have 1: "donate_priority_loop 0 4096 inversion_state =
      donate_priority_loop (Suc 0) 16384 (donate_step 4096 16384 inversion_state)"
    by (subst donate_priority_loop_unfold) (simp add: w DONATE_MAX_DEPTH_def)
  have 2: "donate_priority_loop (Suc 0) 16384 (donate_step 4096 16384 inversion_state) =
      Inr (donate_step 4096 16384 inversion_state)"
    by (subst donate_priority_loop_unfold) (simp add: w1 DONATE_MAX_DEPTH_def)
  show ?thesis by (simp only: donate_priority_def inversion_current 1 2 sum.case)
qed

text \<open>
  C8 at its failing input. In \<open>inversion_state\<close> the ready list is sorted (priorities
  25, 20). The running thread (priority 30) waits for the lock held by the second
  thread of the list; \<open>donate_priority\<close> raises that thread to 30 where it stands,
  and the list reads 25, 30: it is no longer sorted. When the running thread then
  blocks, \<open>schedule\<close> takes the head of the list, and the thread of priority 25 runs
  ahead of the lock holder of priority 30.
\<close>

theorem ready_list_unsorted_after_donation:
  "ready_sorted inversion_state
   \<and> (case donate_priority inversion_state of
        Inl e \<Rightarrow> False
      | Inr s' \<Rightarrow>
          ready_list s' = [12288, 16384]
          \<and> map (\<lambda>t. priority (threads s' t)) (ready_list s') = [25, 30]
          \<and> \<not> ready_sorted s'
          \<and> (case thread_block s' of
               Inl e \<Rightarrow> False
             | Inr s'' \<Rightarrow> running s'' = 12288 \<and> priority (threads s'' 12288) = 25
                          \<and> ready_list s'' = [16384] \<and> priority (threads s'' 16384) = 30))"
  by (simp add: inversion_sorted inversion_donation)
     (simp add: donate_step_def upd_thread_def ready_sorted_def thread_block_def schedule_def
        next_thread_to_run_def thread_launch_def Let_def inv_defs)

section \<open>Properties of vm/file.c\<close>

subsection \<open>The loop of do_mmap\<close>









subsection \<open>Unmapping\<close>


subsection \<open>Destroying a file-backed page\<close>

text \<open>
  C9. \<open>file_backed_destroy\<close> of a page makes these calls on the page's file, and no
  others: when the page is dirty, a seek to the recorded offset and a write of
  \<open>size\<close> bytes from the start of the page, then the close; when it is clean, the
  close alone. For a page set up by \<open>file_backed_initializer\<close> and loaded by
  \<open>lazy_load_file\<close>, the offset is the one of the mapping and \<open>size\<close> is the number
  of bytes read, at most \<open>read_bytes\<close>; the rest of the page, which the load filled
  with zeros, is not written. Loading leaves the page clean.
\<close>

theorem file_backed_destroy_write_back:
  "file_calls (file_backed_destroy pg s) =
     file_calls s
     @ (if dirty s (va pg)
        then [File_seek (fp_file (file_pg pg)) (fp_ofs (file_pg pg)),
              File_write (fp_file (file_pg pg)) (va pg) (fp_size (file_pg pg))]
        else [])
     @ [File_close (fp_file (file_pg pg))]
   \<and> (case lazy_load_file (snd (file_backed_initializer pg)) (uninit_aux pg) avail s0 of
        (ok, pg', s') \<Rightarrow>
          dirty s' (va pg) = False
          \<and> file_calls (file_backed_destroy pg' s) =
               file_calls s
               @ (if dirty s (va pg)
                  then [File_seek (mi_file (uninit_aux pg)) (mi_offset (uninit_aux pg)),
                        File_write (mi_file (uninit_aux pg)) (va pg)
                          (min (mi_read_bytes (uninit_aux pg)) (length avail))]
                  else [])
               @ [File_close (mi_file (uninit_aux pg))])"
  by (simp add: file_backed_destroy_def lazy_load_file_def file_backed_initializer_def
      Let_def min.commute)

end
